theory Spec2Isabelle
  imports Main "HOL-Library.Word"
begin

section \<open>Snooker score board: the match state store and its undo log\<close>

text \<open>
  The model follows \<^verbatim>\<open>src/index.tsx\<close>. The component \<^verbatim>\<open>App\<close> holds two pieces of
  state that matter here, \<^verbatim>\<open>gameState\<close> and \<^verbatim>\<open>history\<close>; each handler is a function from
  the pair to the next pair. The updaters handed to \<^verbatim>\<open>setGameState\<close> are modelled as
  functions on \<^verbatim>\<open>GameState\<close>; where an updater can throw (reading \<^verbatim>\<open>.id\<close> of
  \<^verbatim>\<open>undefined\<close>), the result is a sum with the error on the left. Ids, scores, breaks and
  ranks are integers (the numbers of the source stay whole, and far below \<open>2 ^ 53\<close>).
\<close>

subsection \<open>JavaScript values\<close>

text \<open>A JavaScript string is a sequence of UTF-16 code units.\<close>

type_synonym js_string = "16 word list"

text \<open>
  \<^verbatim>\<open>String.prototype.trim\<close> removes white space and line terminators from both ends.
  The code units below are the ones ECMAScript lists (TAB, LF, VT, FF, CR, SP, NBSP,
  the Unicode space separators, LS, PS and the byte order mark).
\<close>

definition is_white_space :: "16 word \<Rightarrow> bool" where
  "is_white_space c \<longleftrightarrow>
     c = 0x9 \<or> c = 0xA \<or> c = 0xB \<or> c = 0xC \<or> c = 0xD \<or> c = 0x20 \<or> c = 0xA0 \<or>
     c = 0x1680 \<or> (0x2000 \<le> c \<and> c \<le> 0x200A) \<or> c = 0x2028 \<or> c = 0x2029 \<or>
     c = 0x202F \<or> c = 0x205F \<or> c = 0x3000 \<or> c = 0xFEFF"

definition trim :: "js_string \<Rightarrow> js_string" where
  "trim s = rev (dropWhile is_white_space (rev (dropWhile is_white_space s)))"

text \<open>Decimal digits of a number, for the template literal \<^verbatim>\<open>`Player ${newId}`\<close>.\<close>

fun digits :: "nat \<Rightarrow> js_string" where
  "digits n = (if n < 10 then [of_nat (48 + n)] else digits (n div 10) @ [of_nat (48 + n mod 10)])"

declare digits.simps [simp del]

definition number_toString :: "int \<Rightarrow> js_string" where
  "number_toString i = (if i < 0 then 0x2D # digits (nat (- i)) else digits (nat i))"

text \<open>The code units of \<^verbatim>\<open>"Player "\<close>.\<close>

definition player_prefix :: js_string where
  "player_prefix = [0x50, 0x6C, 0x61, 0x79, 0x65, 0x72, 0x20]"

text \<open>
  \<^verbatim>\<open>a % b\<close> on integers: the remainder takes the sign of the dividend, and a zero
  divisor gives \<^verbatim>\<open>NaN\<close> (here \<open>None\<close>).
\<close>

definition js_rem :: "int \<Rightarrow> int \<Rightarrow> int option" where
  "js_rem a b = (if b = 0 then None else Some (sgn a * (\<bar>a\<bar> mod \<bar>b\<bar>)))"

text \<open>\<^verbatim>\<open>xs[i]\<close>: \<^verbatim>\<open>undefined\<close> (here \<open>None\<close>) outside the array.\<close>

definition at :: "'a list \<Rightarrow> int \<Rightarrow> 'a option" where
  "at xs i = (if 0 \<le> i \<and> i < int (length xs) then Some (xs ! nat i) else None)"

text \<open>\<^verbatim>\<open>xs[NaN]\<close> is \<^verbatim>\<open>undefined\<close> as well.\<close>

definition at_opt :: "'a list \<Rightarrow> int option \<Rightarrow> 'a option" where
  "at_opt xs i = (case i of None \<Rightarrow> None | Some j \<Rightarrow> at xs j)"

text \<open>\<^verbatim>\<open>Array.prototype.findIndex\<close>: the first index whose element satisfies the test, or -1.\<close>

fun findIndex :: "('a \<Rightarrow> bool) \<Rightarrow> 'a list \<Rightarrow> int" where
  "findIndex P [] = - 1"
| "findIndex P (x # xs) =
     (if P x then 0 else (let r = findIndex P xs in if r < 0 then - 1 else r + 1))"

text \<open>\<^verbatim>\<open>Math.max(...xs)\<close> of a non-empty array, its first element given apart.\<close>

definition math_max :: "int \<Rightarrow> int list \<Rightarrow> int" where
  "math_max x xs = fold max xs x"

datatype error = TypeError

subsection \<open>Data model\<close>

record Player =
  idP :: int
  name :: js_string
  score :: int
  break :: int
  rank :: "int option"

record GameState =
  players :: "Player list"
  currentPlayerId :: int

text \<open>The two state variables of \<^verbatim>\<open>App\<close> that the handlers read and write.\<close>

record App =
  gameState :: GameState
  history :: "GameState list"

definition initialPlayer1 :: Player where
  "initialPlayer1 = \<lparr>idP = 1, name = player_prefix @ [0x31], score = 0, break = 0, rank = None\<rparr>"

definition initialPlayer2 :: Player where
  "initialPlayer2 = \<lparr>idP = 2, name = player_prefix @ [0x32], score = 0, break = 0, rank = None\<rparr>"

definition initialGameState :: GameState where
  "initialGameState = \<lparr>players = [initialPlayer1, initialPlayer2], currentPlayerId = 1\<rparr>"

definition initialApp :: App where
  "initialApp = \<lparr>gameState = initialGameState, history = []\<rparr>"

subsection \<open>Handlers\<close>

text \<open>\<^verbatim>\<open>saveToHistory\<close>: appends the game state of the current render to the history.\<close>

definition saveToHistory :: "App \<Rightarrow> GameState list" where
  "saveToHistory app = history app @ [gameState app]"

text \<open>The ranks already assigned: \<^verbatim>\<open>prev.players.map(p => p.rank).filter(r => r !== null)\<close>.\<close>

definition existingRanks :: "GameState \<Rightarrow> int list" where
  "existingRanks prev = map the (filter (\<lambda>r. r \<noteq> None) (map rank (players prev)))"

text \<open>\<^verbatim>\<open>a || b\<close> on a rank: \<^verbatim>\<open>null\<close> and 0 are falsy.\<close>

definition rank_or :: "int option \<Rightarrow> int option \<Rightarrow> int option" where
  "rank_or a b = (if a = None \<or> a = Some 0 then b else a)"

text \<open>The updater of \<^verbatim>\<open>handlePot\<close>.\<close>

definition potUpdate :: "int \<Rightarrow> GameState \<Rightarrow> GameState" where
  "potUpdate points prev =
     (case find (\<lambda>p. idP p = currentPlayerId prev) (players prev) of
        None \<Rightarrow> prev
      | Some currentPlayer \<Rightarrow>
          (let newBreak = break currentPlayer + points;
               newRankForPlayer =
                 (if newBreak \<ge> 100 \<and> rank currentPlayer = None
                  then (case existingRanks prev of
                          [] \<Rightarrow> Some 1
                        | r # rs \<Rightarrow> Some (math_max r rs + 1))
                  else None)
           in prev\<lparr>players :=
                map (\<lambda>p. if idP p = currentPlayerId prev
                          then p\<lparr>score := score p + points, break := newBreak,
                                 rank := rank_or (rank p) newRankForPlayer\<rparr>
                          else p) (players prev)\<rparr>))"

text \<open>
  The timer callback of \<^verbatim>\<open>handlePot\<close>. It runs 800 ms after the click, and its
  \<^verbatim>\<open>saveToHistory\<close> is the one of the render of the click: it records the game state
  \<open>rendered\<close> of that render, while the updater works on the state of the moment.
\<close>

definition potCommit :: "GameState \<Rightarrow> int \<Rightarrow> App \<Rightarrow> App" where
  "potCommit rendered points app =
     \<lparr>gameState = potUpdate points (gameState app), history = history app @ [rendered]\<rparr>"

text \<open>
  Between the click and the commit other actions can run, so the timers that have not
  fired yet are part of the state: each holds the game state rendered at its click and
  the points. All delays are equal, so the timers fire in the order of the clicks.
\<close>

record Session =
  current :: App
  pending :: "(GameState \<times> int) list"

text \<open>
  The synchronous part of \<^verbatim>\<open>handlePot\<close>. The element
  \<^verbatim>\<open>.player-panel.active .player-score\<close> exists exactly when some rendered player has
  the current id; without it the handler returns at once. Otherwise it starts the timer.
\<close>

definition handlePotClick :: "int \<Rightarrow> Session \<Rightarrow> Session" where
  "handlePotClick points s =
     (case find (\<lambda>p. idP p = currentPlayerId (gameState (current s)))
             (players (gameState (current s))) of
        None \<Rightarrow> s
      | Some _ \<Rightarrow> s\<lparr>pending := pending s @ [(gameState (current s), points)]\<rparr>)"

text \<open>The oldest timer fires.\<close>

definition timerFire :: "Session \<Rightarrow> Session" where
  "timerFire s =
     (case pending s of
        [] \<Rightarrow> s
      | (rendered, points) # ts \<Rightarrow>
          \<lparr>current = potCommit rendered points (current s), pending = ts\<rparr>)"

text \<open>
  A pot that nothing disturbs: the click with no timer pending, and then its timer
  before any other action.
\<close>

definition handlePot :: "int \<Rightarrow> App \<Rightarrow> App" where
  "handlePot points app =
     current (timerFire (handlePotClick points \<lparr>current = app, pending = []\<rparr>))"

text \<open>The updater of \<^verbatim>\<open>handleFoul\<close>.\<close>

definition foulUpdate :: "int \<Rightarrow> GameState \<Rightarrow> error + GameState" where
  "foulUpdate foulValue prev =
     (let currentPlayerIndex = findIndex (\<lambda>p. idP p = currentPlayerId prev) (players prev);
          nextPlayerIndex = js_rem (currentPlayerIndex + 1) (int (length (players prev)))
      in case at_opt (players prev) nextPlayerIndex of
           None \<Rightarrow> Inl TypeError
         | Some nextPlayer \<Rightarrow>
             (let nextPlayerId = idP nextPlayer
              in Inr (prev\<lparr>players :=
                   map (\<lambda>p. if idP p = nextPlayerId then p\<lparr>score := score p + foulValue\<rparr>
                             else if idP p = currentPlayerId prev then p\<lparr>break := 0\<rparr>
                             else p) (players prev)\<rparr>)))"

definition handleFoul :: "int \<Rightarrow> App \<Rightarrow> error + App" where
  "handleFoul foulValue app =
     (case foulUpdate foulValue (gameState app) of
        Inl e \<Rightarrow> Inl e
      | Inr g \<Rightarrow> Inr \<lparr>gameState = g, history = saveToHistory app\<rparr>)"

definition handlePlayerSelect :: "int \<Rightarrow> App \<Rightarrow> App" where
  "handlePlayerSelect selectedPlayerId app =
     (if selectedPlayerId = currentPlayerId (gameState app) then app
      else \<lparr>gameState =
              (gameState app)\<lparr>players :=
                   map (\<lambda>p. if idP p = currentPlayerId (gameState app) then p\<lparr>break := 0\<rparr> else p)
                     (players (gameState app)),
                 currentPlayerId := selectedPlayerId\<rparr>,
            history = saveToHistory app\<rparr>)"

definition handleUndo :: "App \<Rightarrow> App" where
  "handleUndo app =
     (if length (history app) > 0
      then \<lparr>gameState = last (history app), history = butlast (history app)\<rparr>
      else app)"

definition handleNewGame :: "App \<Rightarrow> App" where
  "handleNewGame app =
     \<lparr>gameState =
        (gameState app)\<lparr>players :=
             map (\<lambda>p. p\<lparr>score := 0, break := 0, rank := None\<rparr>) (players (gameState app)),
           currentPlayerId :=
             (case players (gameState app) of [] \<Rightarrow> 1 | p # _ \<Rightarrow> idP p)\<rparr>,
      history = []\<rparr>"

text \<open>The updater of \<^verbatim>\<open>handleAddPlayer\<close>.\<close>

definition addUpdate :: "GameState \<Rightarrow> GameState" where
  "addUpdate prev =
     (let newId = (case map idP (players prev) of [] \<Rightarrow> 1 | i # is \<Rightarrow> math_max i is + 1);
          newPlayer = \<lparr>idP = newId, name = player_prefix @ number_toString newId,
                       score = 0, break = 0, rank = None\<rparr>
      in prev\<lparr>players := players prev @ [newPlayer]\<rparr>)"

definition handleAddPlayer :: "App \<Rightarrow> App" where
  "handleAddPlayer app =
     (if length (players (gameState app)) \<ge> 8 then app
      else \<lparr>gameState = addUpdate (gameState app), history = saveToHistory app\<rparr>)"

text \<open>The updater of \<^verbatim>\<open>handleRemovePlayer\<close>.\<close>

definition removeUpdate :: "int \<Rightarrow> GameState \<Rightarrow> error + GameState" where
  "removeUpdate idToRemove prev =
     (let playerToRemoveIndex = findIndex (\<lambda>p. idP p = idToRemove) (players prev);
          newPlayers = filter (\<lambda>p. idP p \<noteq> idToRemove) (players prev)
      in if currentPlayerId prev = idToRemove
         then (let nextPlayerIndex = js_rem playerToRemoveIndex (int (length newPlayers))
               in case at_opt newPlayers nextPlayerIndex of
                    None \<Rightarrow> Inl TypeError
                  | Some q \<Rightarrow> Inr (prev\<lparr>players := newPlayers, currentPlayerId := idP q\<rparr>))
         else Inr (prev\<lparr>players := newPlayers\<rparr>))"

definition handleRemovePlayer :: "int \<Rightarrow> App \<Rightarrow> error + App" where
  "handleRemovePlayer idToRemove app =
     (if length (players (gameState app)) \<le> 2 then Inr app
      else (case removeUpdate idToRemove (gameState app) of
              Inl e \<Rightarrow> Inl e
            | Inr g \<Rightarrow> Inr \<lparr>gameState = g, history = saveToHistory app\<rparr>))"

definition handleNameChange :: "int \<Rightarrow> js_string \<Rightarrow> App \<Rightarrow> App" where
  "handleNameChange i newName app =
     \<lparr>gameState =
        (gameState app)\<lparr>players :=
           map (\<lambda>p. if idP p = i then p\<lparr>name := newName\<rparr> else p) (players (gameState app))\<rparr>,
      history = saveToHistory app\<rparr>"

text \<open>
  \<^verbatim>\<open>handleNameUpdate\<close> of the panel of player \<open>i\<close>, with the text \<open>nm\<close> typed into its
  input field: an empty string is falsy, and then only the field is set back.
\<close>

definition handleNameUpdate :: "int \<Rightarrow> js_string \<Rightarrow> App \<Rightarrow> App" where
  "handleNameUpdate i nm app =
     (if trim nm \<noteq> [] then handleNameChange i (trim nm) app else app)"

subsection \<open>Operations and runs\<close>

datatype op =
    ApplyPot int
  | ApplyFoul int
  | SelectPlayer int
  | AddPlayer
  | RemovePlayer int
  | RenamePlayer int js_string
  | NewGame
  | Undo

fun step :: "op \<Rightarrow> App \<Rightarrow> error + App" where
  "step (ApplyPot n) app = Inr (handlePot n app)"
| "step (ApplyFoul n) app = handleFoul n app"
| "step (SelectPlayer i) app = Inr (handlePlayerSelect i app)"
| "step AddPlayer app = Inr (handleAddPlayer app)"
| "step (RemovePlayer i) app = handleRemovePlayer i app"
| "step (RenamePlayer i nm) app = Inr (handleNameUpdate i nm app)"
| "step NewGame app = Inr (handleNewGame app)"
| "step Undo app = Inr (handleUndo app)"

fun run :: "op list \<Rightarrow> App \<Rightarrow> error + App" where
  "run [] app = Inr app"
| "run (x # xs) app = (case step x app of Inl e \<Rightarrow> Inl e | Inr app' \<Rightarrow> run xs app')"

text \<open>
  Events of a session: an action of the user, where a pot is only its click, and the
  firing of the oldest timer. A run of \<open>run\<close> is a session in which every pot is
  followed at once by its timer.
\<close>

datatype event = Act op | Fire

fun session_step :: "event \<Rightarrow> Session \<Rightarrow> error + Session" where
  "session_step (Act (ApplyPot n)) s = Inr (handlePotClick n s)"
| "session_step (Act x) s =
     (case step x (current s) of Inl e \<Rightarrow> Inl e | Inr app' \<Rightarrow> Inr (s\<lparr>current := app'\<rparr>))"
| "session_step Fire s = Inr (timerFire s)"

fun session_run :: "event list \<Rightarrow> Session \<Rightarrow> error + Session" where
  "session_run [] s = Inr s"
| "session_run (e # es) s =
     (case session_step e s of Inl err \<Rightarrow> Inl err | Inr s' \<Rightarrow> session_run es s')"

definition initialSession :: Session where
  "initialSession = \<lparr>current = initialApp, pending = []\<rparr>"

text \<open>
  An action is rejected when its handler returns before \<^verbatim>\<open>saveToHistory\<close>: a pot with no
  active panel, the selection of the current player, an addition at 8 players, a removal
  at 2 players, a blank name, an undo with an empty history.
\<close>

fun rejected :: "op \<Rightarrow> App \<Rightarrow> bool" where
  "rejected (ApplyPot n) app \<longleftrightarrow>
     find (\<lambda>p. idP p = currentPlayerId (gameState app)) (players (gameState app)) = None"
| "rejected (ApplyFoul n) app \<longleftrightarrow> False"
| "rejected (SelectPlayer i) app \<longleftrightarrow> i = currentPlayerId (gameState app)"
| "rejected AddPlayer app \<longleftrightarrow> length (players (gameState app)) \<ge> 8"
| "rejected (RemovePlayer i) app \<longleftrightarrow> length (players (gameState app)) \<le> 2"
| "rejected (RenamePlayer i nm) app \<longleftrightarrow> trim nm = []"
| "rejected NewGame app \<longleftrightarrow> False"
| "rejected Undo app \<longleftrightarrow> history app = []"

text \<open>The ids and the ranks of the players after a run from the initial state.\<close>

definition ids_after :: "op list \<Rightarrow> int list option" where
  "ids_after ops =
     (case run ops initialApp of
        Inl e \<Rightarrow> None
      | Inr app \<Rightarrow> Some (map idP (players (gameState app))))"

definition ranks_after :: "op list \<Rightarrow> int option list option" where
  "ranks_after ops =
     (case run ops initialApp of
        Inl e \<Rightarrow> None
      | Inr app \<Rightarrow> Some (map rank (players (gameState app))))"

text \<open>The rank that the updater of \<^verbatim>\<open>handlePot\<close> assigns at a century.\<close>

definition next_rank :: "GameState \<Rightarrow> int" where
  "next_rank g = (case existingRanks g of [] \<Rightarrow> 1 | r # rs \<Rightarrow> math_max r rs + 1)"

text \<open>Every removal of a run names a player who is present when it is issued.\<close>

fun removals_exist :: "op list \<Rightarrow> App \<Rightarrow> bool" where
  "removals_exist [] app = True"
| "removals_exist (x # xs) app =
     ((case x of RemovePlayer i \<Rightarrow> i \<in> set (map idP (players (gameState app))) | _ \<Rightarrow> True) \<and>
      (case step x app of Inl e \<Rightarrow> True | Inr app' \<Rightarrow> removals_exist xs app'))"

text \<open>
  A removal that leaves no gap in the ranks: it is rejected, or every player it takes out
  has no rank or holds the highest rank assigned.
\<close>

definition removal_keeps_ranks :: "int \<Rightarrow> GameState \<Rightarrow> bool" where
  "removal_keeps_ranks i g \<longleftrightarrow>
     length (players g) \<le> 2 \<or>
     (\<forall>p\<in>set (players g). idP p = i \<longrightarrow>
        (case rank p of None \<Rightarrow> True | Some m \<Rightarrow> \<forall>r\<in>set (existingRanks g). r \<le> m))"

text \<open>Every removal of a run is of that kind, in the state in which it is issued.\<close>

fun removals_keep_ranks :: "op list \<Rightarrow> App \<Rightarrow> bool" where
  "removals_keep_ranks [] app = True"
| "removals_keep_ranks (x # xs) app =
     ((case x of RemovePlayer i \<Rightarrow> removal_keeps_ranks i (gameState app) | _ \<Rightarrow> True) \<and>
      (case step x app of Inl e \<Rightarrow> True | Inr app' \<Rightarrow> removals_keep_ranks xs app'))"

text \<open>
  Two states of a game: player 1 has potted fourteen blacks and a yellow (a break of 100),
  then player 2 has been selected and has potted fourteen blacks (a break of 98).
\<close>

definition after_first_century :: App where
  "after_first_century =
     \<lparr>gameState =
        \<lparr>players = [initialPlayer1\<lparr>score := 100, break := 100, rank := Some 1\<rparr>, initialPlayer2],
         currentPlayerId = 1\<rparr>,
      history =
        map (\<lambda>k. \<lparr>players = [initialPlayer1\<lparr>score := 7 * int k, break := 7 * int k\<rparr>,
                               initialPlayer2],
                   currentPlayerId = 1\<rparr>) [0..<15]\<rparr>"

definition before_second_century :: App where
  "before_second_century =
     \<lparr>gameState =
        \<lparr>players = [initialPlayer1\<lparr>score := 100, break := 0, rank := Some 1\<rparr>,
                    initialPlayer2\<lparr>score := 98, break := 98\<rparr>],
         currentPlayerId = 2\<rparr>,
      history =
        history after_first_century @ [gameState after_first_century] @
        map (\<lambda>k. \<lparr>players = [initialPlayer1\<lparr>score := 100, break := 0, rank := Some 1\<rparr>,
                               initialPlayer2\<lparr>score := 7 * int k, break := 7 * int k\<rparr>],
                   currentPlayerId = 2\<rparr>) [0..<14]\<rparr>"

subsection \<open>Invariants\<close>

text \<open>
  What every game state of a run satisfies: between 2 and 8 players, pairwise distinct
  ids, and assigned ranks that are positive and pairwise distinct.
\<close>

definition wf_state :: "GameState \<Rightarrow> bool" where
  "wf_state g \<longleftrightarrow>
     2 \<le> length (players g) \<and> length (players g) \<le> 8 \<and>
     distinct (map idP (players g)) \<and>
     distinct (existingRanks g) \<and> (\<forall>r\<in>set (existingRanks g). 1 \<le> r)"

definition app_ok :: "App \<Rightarrow> bool" where
  "app_ok app \<longleftrightarrow> wf_state (gameState app) \<and> (\<forall>g\<in>set (history app). wf_state g)"

text \<open>The assigned ranks are 1, ..., k.\<close>

definition contiguous :: "GameState \<Rightarrow> bool" where
  "contiguous g \<longleftrightarrow> set (existingRanks g) = {1 .. int (length (existingRanks g))}"

definition app_contiguous :: "App \<Rightarrow> bool" where
  "app_contiguous app \<longleftrightarrow>
     contiguous (gameState app) \<and> (\<forall>g\<in>set (history app). contiguous g)"

section \<open>Auxiliary facts\<close>

subsection \<open>The pot as one step\<close>

lemma handlePot_unfold:
  "handlePot points app =
     (case find (\<lambda>p. idP p = currentPlayerId (gameState app)) (players (gameState app)) of
        None \<Rightarrow> app
      | Some _ \<Rightarrow> \<lparr>gameState = potUpdate points (gameState app), history = saveToHistory app\<rparr>)"
  by (simp add: handlePot_def handlePotClick_def timerFire_def potCommit_def saveToHistory_def
      split: option.splits)

text \<open>
  An undo after a commit goes back to the rendered state of the click, whatever the
  state of the moment was.
\<close>

lemma handleUndo_potCommit:
  "handleUndo (potCommit rendered points app) = \<lparr>gameState = rendered, history = history app\<rparr>"
  by (simp add: potCommit_def handleUndo_def)

subsection \<open>Lists whose elements have pairwise distinct keys\<close>

lemma findIndex_distinct:
  "distinct (map f xs) \<Longrightarrow> i < length xs \<Longrightarrow> findIndex (\<lambda>p. f p = f (xs ! i)) xs = int i"
proof (induction xs arbitrary: i)
  case Nil
  then show ?case by simp
next
  case (Cons x xs)
  show ?case
  proof (cases i)
    case 0
    then show ?thesis by simp
  next
    case (Suc j)
    with Cons.prems have j: "j < length xs" and d: "distinct (map f xs)"
      and ne: "f x \<noteq> f (xs ! j)" by auto
    from Cons.IH [OF d j] ne Suc show ?thesis by (simp add: Let_def)
  qed
qed

lemma find_distinct:
  "distinct (map f xs) \<Longrightarrow> i < length xs \<Longrightarrow> find (\<lambda>p. f p = f (xs ! i)) xs = Some (xs ! i)"
proof (induction xs arbitrary: i)
  case Nil
  then show ?case by simp
next
  case (Cons x xs)
  show ?case
  proof (cases i)
    case 0
    then show ?thesis by simp
  next
    case (Suc j)
    with Cons.prems have j: "j < length xs" and d: "distinct (map f xs)"
      and ne: "f x \<noteq> f (xs ! j)" by auto
    from Cons.IH [OF d j] ne Suc show ?thesis by simp
  qed
qed

lemma nth_key_eq:
  "distinct (map f xs) \<Longrightarrow> i < length xs \<Longrightarrow> k < length xs \<Longrightarrow> f (xs ! k) = f (xs ! i) \<longleftrightarrow> k = i"
  using nth_eq_iff_index_eq [of "map f xs" k i] by auto

lemma map_key_update:
  assumes "distinct (map f xs)" and "i < length xs"
  shows "map (\<lambda>p. if f p = f (xs ! i) then h p else p) xs = xs[i := h (xs ! i)]"
proof (rule nth_equalityI)
  show "length (map (\<lambda>p. if f p = f (xs ! i) then h p else p) xs) = length (xs[i := h (xs ! i)])"
    by simp
next
  fix k assume "k < length (map (\<lambda>p. if f p = f (xs ! i) then h p else p) xs)"
  then have k: "k < length xs" by simp
  with assms show "map (\<lambda>p. if f p = f (xs ! i) then h p else p) xs ! k = xs[i := h (xs ! i)] ! k"
    by (simp add: nth_key_eq nth_list_update)
qed

lemma map_key_update2:
  assumes "distinct (map f xs)" and "i < length xs" and "j < length xs" and "i \<noteq> j"
  shows "map (\<lambda>p. if f p = f (xs ! j) then h p else if f p = f (xs ! i) then h' p else p) xs
         = xs[j := h (xs ! j), i := h' (xs ! i)]"
proof (rule nth_equalityI)
  show "length (map (\<lambda>p. if f p = f (xs ! j) then h p else if f p = f (xs ! i) then h' p else p) xs)
        = length (xs[j := h (xs ! j), i := h' (xs ! i)])"
    by simp
next
  fix k assume "k < length (map (\<lambda>p. if f p = f (xs ! j) then h p else if f p = f (xs ! i) then h' p else p) xs)"
  then have k: "k < length xs" by simp
  with assms show "map (\<lambda>p. if f p = f (xs ! j) then h p else if f p = f (xs ! i) then h' p else p) xs ! k
        = xs[j := h (xs ! j), i := h' (xs ! i)] ! k"
    by (auto simp add: nth_key_eq nth_list_update)
qed

lemma filter_key_remove:
  "distinct (map f xs) \<Longrightarrow> i < length xs \<Longrightarrow>
     filter (\<lambda>p. f p \<noteq> f (xs ! i)) xs = take i xs @ drop (Suc i) xs"
proof (induction xs arbitrary: i)
  case Nil
  then show ?case by simp
next
  case (Cons x xs)
  show ?case
  proof (cases i)
    case 0
    from Cons.prems have "\<forall>p\<in>set xs. f p \<noteq> f x" by (auto simp: image_iff)
    then have "filter (\<lambda>p. f p \<noteq> f x) xs = xs" by (simp add: filter_id_conv)
    with 0 show ?thesis by simp
  next
    case (Suc j)
    with Cons.prems have j: "j < length xs" and d: "distinct (map f xs)"
      and ne: "f x \<noteq> f (xs ! j)" by auto
    from Cons.IH [OF d j] ne Suc show ?thesis by simp
  qed
qed

lemma math_max_Max: "math_max x xs = Max (set (x # xs))"
  unfolding math_max_def by (rule Max.set_eq_fold [symmetric])

lemma math_max_ge: "y \<in> set (x # xs) \<Longrightarrow> y \<le> math_max x xs"
  unfolding math_max_Max by (rule Max_ge) auto

lemma js_rem_nonneg: "0 \<le> a \<Longrightarrow> 0 < b \<Longrightarrow> js_rem a b = Some (a mod b)"
  by (cases "a = 0") (simp_all add: js_rem_def)

subsection \<open>Ranks\<close>

lemma set_existingRanks:
  "set (existingRanks g) = {r. \<exists>q\<in>set (players g). rank q = Some r}"
  unfolding existingRanks_def by (force simp: image_iff)

lemma next_rank_eq:
  "(case existingRanks g of [] \<Rightarrow> Some 1 | r # rs \<Rightarrow> Some (math_max r rs + 1)) =
     Some (if set (existingRanks g) = {} then 1 else Max (set (existingRanks g)) + 1)"
  by (cases "existingRanks g") (simp_all add: math_max_Max)

subsection \<open>Handlers that return, and the undo of a recorded action\<close>

lemma findIndex_bounds: "- 1 \<le> findIndex P xs \<and> findIndex P xs < int (length xs)"
  by (induction xs) (auto simp: Let_def)

lemma foulUpdate_total:
  assumes "players g \<noteq> []"
  shows "\<exists>g'. foulUpdate v g = Inr g'"
proof -
  define c where "c = findIndex (\<lambda>p. idP p = currentPlayerId g) (players g) + 1"
  define n where "n = int (length (players g))"
  from findIndex_bounds [of "\<lambda>p. idP p = currentPlayerId g" "players g"]
  have c: "0 \<le> c" by (simp add: c_def)
  from assms have n: "0 < n" by (simp add: n_def)
  from c n have r: "js_rem c n = Some (c mod n)" by (rule js_rem_nonneg)
  from n have "0 \<le> c mod n" and "c mod n < n" by simp_all
  then have "at (players g) (c mod n) = Some (players g ! nat (c mod n))"
    by (simp add: at_def n_def)
  then show ?thesis
    unfolding foulUpdate_def Let_def c_def [symmetric] n_def [symmetric] r at_opt_def
    by simp
qed

lemma removeUpdate_players:
  "removeUpdate i g = Inr g' \<Longrightarrow> players g' = filter (\<lambda>p. idP p \<noteq> i) (players g)"
  unfolding removeUpdate_def Let_def by (auto split: if_splits option.splits)

lemma removeUpdate_total:
  assumes d: "distinct (map idP (players g))" and n: "2 \<le> length (players g)"
    and k: "k < length (players g)" and i: "idP (players g ! k) = i"
  shows "\<exists>g'. removeUpdate i g = Inr g'"
proof -
  define ps' where "ps' = take k (players g) @ drop (Suc k) (players g)"
  have fi: "findIndex (\<lambda>p. idP p = idP (players g ! k)) (players g) = int k"
    using d k by (rule findIndex_distinct)
  have fl: "filter (\<lambda>p. idP p \<noteq> idP (players g ! k)) (players g) = ps'"
    unfolding ps'_def using d k by (rule filter_key_remove)
  have l: "0 < int (length ps')" using n k by (simp add: ps'_def)
  then have r: "js_rem (int k) (int (length ps')) = Some (int k mod int (length ps'))"
    by (intro js_rem_nonneg) simp_all
  from l have "0 \<le> int k mod int (length ps')"
    and "int k mod int (length ps') < int (length ps')" by simp_all
  then have a: "at ps' (int k mod int (length ps')) = Some (ps' ! nat (int k mod int (length ps')))"
    by (simp add: at_def)
  show ?thesis
    unfolding removeUpdate_def Let_def i [symmetric] fi fl r at_opt_def
    by (simp add: a)
qed

lemma handleUndo_pushed:
  "handleUndo \<lparr>gameState = g, history = history app @ [gameState app]\<rparr> = app"
  by (simp add: handleUndo_def)

lemma step_then_undo:
  assumes "x \<noteq> NewGame" and "x \<noteq> Undo" and "\<not> rejected x app" and "step x app = Inr app'"
  shows "handleUndo app' = app"
proof (cases x)
  case (ApplyPot n)
  with assms show ?thesis
    by (auto simp: handlePot_unfold saveToHistory_def handleUndo_pushed split: option.splits)
next
  case (ApplyFoul n)
  with assms show ?thesis
    by (auto simp: handleFoul_def saveToHistory_def handleUndo_pushed split: sum.splits)
next
  case (SelectPlayer i)
  with assms show ?thesis
    by (auto simp: handlePlayerSelect_def saveToHistory_def handleUndo_pushed)
next
  case AddPlayer
  with assms show ?thesis
    by (auto simp: handleAddPlayer_def saveToHistory_def handleUndo_pushed)
next
  case (RemovePlayer i)
  with assms show ?thesis
    by (auto simp: handleRemovePlayer_def saveToHistory_def handleUndo_pushed split: sum.splits)
next
  case (RenamePlayer i nm)
  with assms show ?thesis
    by (auto simp: handleNameUpdate_def handleNameChange_def saveToHistory_def handleUndo_pushed)
next
  case NewGame
  with assms show ?thesis by simp
next
  case Undo
  with assms show ?thesis by simp
qed

lemma step_total:
  assumes "distinct (map idP (players (gameState app)))"
    and "players (gameState app) \<noteq> []"
    and "\<forall>i. x = RemovePlayer i \<longrightarrow> i \<in> set (map idP (players (gameState app)))"
  shows "\<exists>app'. step x app = Inr app'"
proof (cases x)
  case (ApplyFoul n)
  from foulUpdate_total [OF assms(2), of n] show ?thesis
    by (auto simp: ApplyFoul handleFoul_def)
next
  case (RemovePlayer i)
  show ?thesis
  proof (cases "length (players (gameState app)) \<le> 2")
    case True
    then show ?thesis by (simp add: RemovePlayer handleRemovePlayer_def)
  next
    case False
    from assms(3) RemovePlayer obtain k where "k < length (players (gameState app))"
      and "idP (players (gameState app) ! k) = i"
      by (auto simp: in_set_conv_nth)
    with removeUpdate_total [OF assms(1), of k i] False show ?thesis
      by (auto simp: RemovePlayer handleRemovePlayer_def)
  qed
qed simp_all

subsection \<open>Assigned ranks of a list of optional ranks\<close>

lemma existingRanks_cong:
  "map rank (players g') = map rank (players g) \<Longrightarrow> existingRanks g' = existingRanks g"
  by (simp add: existingRanks_def)

lemma somes_update:
  assumes "i < length rs" and "rs ! i = None"
  shows "map the (filter (\<lambda>r. r \<noteq> None) (rs[i := Some m])) =
         map the (filter (\<lambda>r. r \<noteq> None) (take i rs)) @ m #
         map the (filter (\<lambda>r. r \<noteq> None) (drop (Suc i) rs))"
    and "map the (filter (\<lambda>r. r \<noteq> None) rs) =
         map the (filter (\<lambda>r. r \<noteq> None) (take i rs)) @
         map the (filter (\<lambda>r. r \<noteq> None) (drop (Suc i) rs))"
proof -
  from assms(1) have "rs[i := Some m] = take i rs @ Some m # drop (Suc i) rs"
    by (rule upd_conv_take_nth_drop)
  then show "map the (filter (\<lambda>r. r \<noteq> None) (rs[i := Some m])) =
         map the (filter (\<lambda>r. r \<noteq> None) (take i rs)) @ m #
         map the (filter (\<lambda>r. r \<noteq> None) (drop (Suc i) rs))"
    by simp
  from assms have "rs = take i rs @ None # drop (Suc i) rs"
    by (metis id_take_nth_drop)
  then have "filter (\<lambda>r. r \<noteq> None) rs =
      filter (\<lambda>r. r \<noteq> None) (take i rs @ None # drop (Suc i) rs)"
    by simp
  then show "map the (filter (\<lambda>r. r \<noteq> None) rs) =
         map the (filter (\<lambda>r. r \<noteq> None) (take i rs)) @
         map the (filter (\<lambda>r. r \<noteq> None) (drop (Suc i) rs))"
    by simp
qed

lemma somes_filter_subset:
  "set (map the (filter (\<lambda>r. r \<noteq> None) (map rank (filter P ps)))) \<subseteq>
   set (map the (filter (\<lambda>r. r \<noteq> None) (map rank ps)))"
  by (induction ps) auto

lemma somes_filter_distinct:
  "distinct (map the (filter (\<lambda>r. r \<noteq> None) (map rank ps))) \<Longrightarrow>
   distinct (map the (filter (\<lambda>r. r \<noteq> None) (map rank (filter P ps))))"
proof (induction ps)
  case Nil
  then show ?case by simp
next
  case (Cons a ps)
  from Cons.prems have d: "distinct (map the (filter (\<lambda>r. r \<noteq> None) (map rank ps)))"
    by (cases "rank a") simp_all
  note ih = Cons.IH [OF d]
  show ?case
  proof (cases "P a \<and> rank a \<noteq> None")
    case False
    with ih show ?thesis by auto
  next
    case True
    then obtain r where r: "rank a = Some r" by auto
    with Cons.prems have "r \<notin> set (map the (filter (\<lambda>r. r \<noteq> None) (map rank ps)))"
      by simp
    with somes_filter_subset [of P ps]
    have "r \<notin> set (map the (filter (\<lambda>r. r \<noteq> None) (map rank (filter P ps))))"
      by blast
    with True r ih show ?thesis by simp
  qed
qed

lemma rank_in_existingRanks:
  "p \<in> set (players g) \<Longrightarrow> rank p = Some r \<Longrightarrow> r \<in> set (existingRanks g)"
  by (force simp: set_existingRanks)

lemma next_rank_greater: "r \<in> set (existingRanks g) \<Longrightarrow> r < next_rank g"
proof (cases "existingRanks g")
  case Nil
  then show "r \<in> set (existingRanks g) \<Longrightarrow> r < next_rank g" by simp
next
  case (Cons a as)
  assume "r \<in> set (existingRanks g)"
  with Cons have "r \<in> set (a # as)" by simp
  then have "r \<le> math_max a as" by (rule math_max_ge)
  with Cons show "r < next_rank g" by (simp add: next_rank_def)
qed

lemma next_rank_positive:
  assumes "\<forall>r\<in>set (existingRanks g). 1 \<le> r"
  shows "1 \<le> next_rank g"
proof (cases "existingRanks g")
  case Nil
  then show ?thesis by (simp add: next_rank_def)
next
  case (Cons a as)
  then have a: "a \<in> set (existingRanks g)" by simp
  with assms have "1 \<le> a" by blast
  moreover from a have "a < next_rank g" by (rule next_rank_greater)
  ultimately show ?thesis by simp
qed

lemma next_rank_contiguous:
  assumes "contiguous g"
  shows "next_rank g = int (length (existingRanks g)) + 1"
proof (cases "existingRanks g")
  case Nil
  then show ?thesis by (simp add: next_rank_def)
next
  case (Cons a as)
  have "math_max a as = Max (set (existingRanks g))"
    by (simp add: math_max_Max Cons)
  also from assms have "\<dots> = Max {1 .. int (length (existingRanks g))}"
    by (simp add: contiguous_def)
  also have "\<dots> = int (length (existingRanks g))"
    by (rule Max_eqI) (auto simp: Cons)
  finally show ?thesis by (simp add: next_rank_def Cons)
qed

subsection \<open>The updaters and the invariants\<close>

lemma potUpdate_ids: "map idP (players (potUpdate n g)) = map idP (players g)"
  unfolding potUpdate_def Let_def by (auto split: option.splits)

lemma potUpdate_current: "currentPlayerId (potUpdate n g) = currentPlayerId g"
  unfolding potUpdate_def Let_def by (auto split: option.splits)

lemma potUpdate_at:
  assumes "distinct (map idP (players g))" and "i < length (players g)"
    and "idP (players g ! i) = currentPlayerId g"
  shows "potUpdate n g = g\<lparr>players := (players g)[i := (players g ! i)
      \<lparr>score := score (players g ! i) + n, break := break (players g ! i) + n,
       rank := rank_or (rank (players g ! i))
          (if break (players g ! i) + n \<ge> 100 \<and> rank (players g ! i) = None
           then Some (next_rank g) else None)\<rparr>]\<rparr>"
proof -
  define nr where "nr = (if break (players g ! i) + n \<ge> 100 \<and> rank (players g ! i) = None
           then Some (next_rank g) else None)"
  have f: "find (\<lambda>p. idP p = idP (players g ! i)) (players g) = Some (players g ! i)"
    using assms(1,2) by (rule find_distinct)
  have m: "map (\<lambda>p. if idP p = idP (players g ! i)
               then p\<lparr>score := score p + n, break := break (players g ! i) + n,
                      rank := rank_or (rank p) nr\<rparr> else p) (players g) =
      (players g)[i := (players g ! i)\<lparr>score := score (players g ! i) + n,
          break := break (players g ! i) + n, rank := rank_or (rank (players g ! i)) nr\<rparr>]"
    using assms(1,2) by (rule map_key_update)
  have e: "(case existingRanks g of [] \<Rightarrow> Some 1 | r # rs \<Rightarrow> Some (math_max r rs + 1)) =
      Some (next_rank g)"
    by (simp add: next_rank_def split: list.splits)
  show ?thesis
    unfolding potUpdate_def assms(3) [symmetric] f Let_def option.case e m [unfolded nr_def]
    by simp
qed

lemma potUpdate_ranks:
  assumes "distinct (map idP (players g))" and "\<forall>r\<in>set (existingRanks g). 1 \<le> r"
  shows "map rank (players (potUpdate n g)) = map rank (players g) \<or>
     (\<exists>i<length (players g). rank (players g ! i) = None \<and>
        map rank (players (potUpdate n g)) = (map rank (players g))[i := Some (next_rank g)])"
proof (cases "find (\<lambda>p. idP p = currentPlayerId g) (players g)")
  case None
  then show ?thesis by (simp add: potUpdate_def)
next
  case (Some cp)
  then obtain i where i: "i < length (players g)" and c: "idP (players g ! i) = currentPlayerId g"
    by (auto simp: find_Some_iff)
  note u = potUpdate_at [OF assms(1) i c, of n]
  show ?thesis
  proof (cases "rank (players g ! i)")
    case None
    show ?thesis
    proof (cases "break (players g ! i) + n \<ge> 100")
      case True
      with None i have "map rank (players (potUpdate n g)) =
          (map rank (players g))[i := Some (next_rank g)]"
        by (simp add: u rank_or_def map_update)
      with None i show ?thesis by blast
    next
      case False
      with None i have "map rank (players (potUpdate n g)) = (map rank (players g))[i := None]"
        by (simp add: u rank_or_def map_update)
      also from None i have "\<dots> = map rank (players g)"
        by (metis list_update_id nth_map)
      finally show ?thesis by simp
    qed
  next
    case (Some r)
    with i have "r \<in> set (existingRanks g)"
      by (intro rank_in_existingRanks [of "players g ! i"]) simp_all
    with assms(2) have "r \<noteq> 0" by force
    with Some i have "map rank (players (potUpdate n g)) = (map rank (players g))[i := Some r]"
      by (simp add: u rank_or_def map_update)
    also from Some i have "\<dots> = map rank (players g)"
      by (metis list_update_id nth_map)
    finally show ?thesis by simp
  qed
qed

lemma existingRanks_assign:
  assumes "i < length (players g)" and "rank (players g ! i) = None"
    and "map rank (players g') = (map rank (players g))[i := Some m]"
  shows "set (existingRanks g') = insert m (set (existingRanks g))"
    and "length (existingRanks g') = Suc (length (existingRanks g))"
    and "distinct (existingRanks g) \<Longrightarrow> m \<notin> set (existingRanks g) \<Longrightarrow> distinct (existingRanks g')"
proof -
  from assms(1,2) have a: "i < length (map rank (players g))" and b: "map rank (players g) ! i = None"
    by simp_all
  note s = somes_update(1) [OF a b, where m = m] somes_update(2) [OF a b]
  show "set (existingRanks g') = insert m (set (existingRanks g))"
    unfolding existingRanks_def assms(3) s by auto
  show "length (existingRanks g') = Suc (length (existingRanks g))"
    unfolding existingRanks_def assms(3) s by simp
  show "distinct (existingRanks g) \<Longrightarrow> m \<notin> set (existingRanks g) \<Longrightarrow> distinct (existingRanks g')"
    unfolding existingRanks_def assms(3) s by auto
qed

lemma wf_state_potUpdate:
  assumes "wf_state g"
  shows "wf_state (potUpdate n g)"
proof -
  from assms have d: "distinct (map idP (players g))" and p: "\<forall>r\<in>set (existingRanks g). 1 \<le> r"
    and dr: "distinct (existingRanks g)"
    by (simp_all add: wf_state_def)
  have len: "length (players (potUpdate n g)) = length (players g)"
    using potUpdate_ids [of n g] by (metis length_map)
  from potUpdate_ranks [OF d p, of n]
  have "distinct (existingRanks (potUpdate n g)) \<and>
      (\<forall>r\<in>set (existingRanks (potUpdate n g)). 1 \<le> r)"
  proof
    assume "map rank (players (potUpdate n g)) = map rank (players g)"
    then have "existingRanks (potUpdate n g) = existingRanks g" by (rule existingRanks_cong)
    with dr p show ?thesis by simp
  next
    assume "\<exists>i<length (players g). rank (players g ! i) = None \<and>
        map rank (players (potUpdate n g)) = (map rank (players g))[i := Some (next_rank g)]"
    then obtain i where i: "i < length (players g)" "rank (players g ! i) = None"
      "map rank (players (potUpdate n g)) = (map rank (players g))[i := Some (next_rank g)]"
      by blast
    have "next_rank g \<notin> set (existingRanks g)"
      using next_rank_greater [of "next_rank g" g] by auto
    with existingRanks_assign [OF i] dr p next_rank_positive [OF p] show ?thesis by simp
  qed
  with assms len show ?thesis by (simp add: wf_state_def potUpdate_ids)
qed

lemma contiguous_potUpdate:
  assumes "wf_state g" and "contiguous g"
  shows "contiguous (potUpdate n g)"
proof -
  from assms have d: "distinct (map idP (players g))" and p: "\<forall>r\<in>set (existingRanks g). 1 \<le> r"
    by (simp_all add: wf_state_def)
  from potUpdate_ranks [OF d p, of n] show ?thesis
  proof
    assume "map rank (players (potUpdate n g)) = map rank (players g)"
    then have "existingRanks (potUpdate n g) = existingRanks g" by (rule existingRanks_cong)
    with assms(2) show ?thesis by (simp add: contiguous_def)
  next
    assume "\<exists>i<length (players g). rank (players g ! i) = None \<and>
        map rank (players (potUpdate n g)) = (map rank (players g))[i := Some (next_rank g)]"
    then obtain i where i: "i < length (players g)" "rank (players g ! i) = None"
      "map rank (players (potUpdate n g)) = (map rank (players g))[i := Some (next_rank g)]"
      by blast
    from existingRanks_assign(1,2) [OF i] assms(2) next_rank_contiguous [OF assms(2)]
    show ?thesis by (auto simp: contiguous_def)
  qed
qed

lemma wf_state_cong:
  assumes "map idP (players g') = map idP (players g)"
    and "map rank (players g') = map rank (players g)"
    and "wf_state g"
  shows "wf_state g'"
proof -
  have "length (map idP (players g')) = length (map idP (players g))"
    by (simp only: assms(1))
  then have l: "length (players g') = length (players g)" by (simp only: length_map)
  have e: "existingRanks g' = existingRanks g"
    using assms(2) by (rule existingRanks_cong)
  from assms(3) show ?thesis
    unfolding wf_state_def l e assms(1) .
qed

lemma contiguous_cong:
  assumes "map rank (players g') = map rank (players g)" and "contiguous g"
  shows "contiguous g'"
proof -
  have e: "existingRanks g' = existingRanks g"
    using assms(1) by (rule existingRanks_cong)
  from assms(2) show ?thesis unfolding contiguous_def e .
qed

lemma foulUpdate_fields:
  assumes "foulUpdate v g = Inr g'"
  shows "map idP (players g') = map idP (players g)"
    and "map rank (players g') = map rank (players g)"
    and "currentPlayerId g' = currentPlayerId g"
  using assms unfolding foulUpdate_def Let_def
  by (auto split: option.splits)

lemma select_fields:
  "map idP (map (\<lambda>p. if idP p = c then p\<lparr>break := 0\<rparr> else p) ps) = map idP ps"
  "map rank (map (\<lambda>p. if idP p = c then p\<lparr>break := 0\<rparr> else p) ps) = map rank ps"
  by (induction ps) auto

lemma rename_fields:
  "map idP (map (\<lambda>p. if idP p = i then p\<lparr>name := nm\<rparr> else p) ps) = map idP ps"
  "map rank (map (\<lambda>p. if idP p = i then p\<lparr>name := nm\<rparr> else p) ps) = map rank ps"
  by (induction ps) auto

lemma addUpdate_players:
  "\<exists>p. players (addUpdate g) = players g @ [p] \<and> rank p = None \<and>
       (\<forall>q\<in>set (players g). idP q < idP p)"
proof (cases "players g")
  case Nil
  then show ?thesis by (simp add: addUpdate_def)
next
  case (Cons a as)
  define m where "m = math_max (idP a) (map idP as)"
  define p where "p = \<lparr>idP = m + 1, name = player_prefix @ number_toString (m + 1),
      score = 0, break = 0, rank = None\<rparr>"
  have 1: "players (addUpdate g) = players g @ [p]"
    by (simp add: addUpdate_def Cons p_def m_def Let_def)
  have "\<forall>q\<in>set (players g). idP q \<le> m"
    unfolding m_def by (auto simp: Cons intro: math_max_ge)
  then have 2: "\<forall>q\<in>set (players g). idP q < idP p"
    by (auto simp: p_def)
  have 3: "rank p = None" by (simp add: p_def)
  from 1 2 3 show ?thesis by blast
qed

lemma addUpdate_exact:
  "addUpdate g =
     (let ids = map idP (players g);
          newId = (if ids = [] then 1 else Max (set ids) + 1)
      in g\<lparr>players := players g @
            [\<lparr>idP = newId, name = player_prefix @ number_toString newId,
              score = 0, break = 0, rank = None\<rparr>]\<rparr>)"
proof (cases "players g")
  case Nil
  then show ?thesis by (simp add: addUpdate_def)
next
  case (Cons a as)
  have "math_max (idP a) (map idP as) = Max (set (map idP (players g)))"
    by (simp add: math_max_Max Cons)
  then show ?thesis
    unfolding addUpdate_def Let_def by (simp add: Cons)
qed

lemma addUpdate_newId_greater:
  "\<forall>q\<in>set (players g).
     idP q < (if map idP (players g) = [] then 1 else Max (set (map idP (players g))) + 1)"
proof
  fix q assume q: "q \<in> set (players g)"
  then have "idP q \<in> set (map idP (players g))" by simp
  then have "idP q \<le> Max (set (map idP (players g)))" by (intro Max_ge) simp_all
  moreover from q have "map idP (players g) \<noteq> []" by auto
  ultimately show "idP q < (if map idP (players g) = [] then 1
      else Max (set (map idP (players g))) + 1)" by simp
qed

lemma existingRanks_append_None:
  "players g' = players g @ [p] \<Longrightarrow> rank p = None \<Longrightarrow> existingRanks g' = existingRanks g"
  by (simp add: existingRanks_def)

lemma wf_state_addUpdate:
  assumes "wf_state g" and "length (players g) < 8"
  shows "wf_state (addUpdate g)"
proof -
  from addUpdate_players [of g] obtain p where p: "players (addUpdate g) = players g @ [p]"
    "rank p = None" "\<forall>q\<in>set (players g). idP q < idP p"
    by blast
  from p(3) have "idP p \<notin> idP ` set (players g)" by auto
  with assms p(1) existingRanks_append_None [OF p(1,2)] show ?thesis
    by (simp add: wf_state_def)
qed

lemma contiguous_addUpdate: "contiguous g \<Longrightarrow> contiguous (addUpdate g)"
  using addUpdate_players [of g] by (auto simp: contiguous_def existingRanks_append_None)

lemma filter_key_length:
  assumes "distinct (map f xs)"
  shows "length xs - 1 \<le> length (filter (\<lambda>p. f p \<noteq> a) xs)"
proof (cases "a \<in> f ` set xs")
  case True
  then obtain i where i: "i < length xs" and a: "a = f (xs ! i)"
    by (auto simp: in_set_conv_nth)
  from filter_key_remove [OF assms i] i show ?thesis by (simp add: a)
next
  case False
  then have "filter (\<lambda>p. f p \<noteq> a) xs = xs" by (auto simp: filter_id_conv)
  then show ?thesis by simp
qed

lemma wf_state_removeUpdate:
  assumes "wf_state g" and "\<not> length (players g) \<le> 2" and "removeUpdate i g = Inr g'"
  shows "wf_state g'"
proof -
  from assms(3) have ps: "players g' = filter (\<lambda>p. idP p \<noteq> i) (players g)"
    by (rule removeUpdate_players)
  from assms(1) have d: "distinct (map idP (players g))" by (simp add: wf_state_def)
  from filter_key_length [OF d, of i] assms(2) have "2 \<le> length (players g')"
    by (simp add: ps)
  moreover from assms(1) have "length (players g') \<le> 8"
    unfolding ps wf_state_def using length_filter_le [of "\<lambda>p. idP p \<noteq> i" "players g"] by linarith
  moreover from d have "distinct (map idP (players g'))"
    by (simp add: ps distinct_map_filter)
  moreover from assms(1) have "distinct (existingRanks g')"
    unfolding existingRanks_def ps wf_state_def by (intro somes_filter_distinct) simp
  moreover from assms(1) have "\<forall>r\<in>set (existingRanks g'). 1 \<le> r"
    unfolding existingRanks_def ps wf_state_def
    using somes_filter_subset [of "\<lambda>p. idP p \<noteq> i" "players g"] by blast
  ultimately show ?thesis by (simp add: wf_state_def)
qed

lemma newGame_existingRanks:
  "existingRanks (g\<lparr>players := map (\<lambda>p. p\<lparr>score := 0, break := 0, rank := None\<rparr>) ps,
                     currentPlayerId := c\<rparr>) = []"
  by (induction ps) (simp_all add: existingRanks_def)

lemma wf_state_newGame: "wf_state (gameState app) \<Longrightarrow> wf_state (gameState (handleNewGame app))"
  by (simp add: handleNewGame_def wf_state_def newGame_existingRanks comp_def)

lemma contiguous_newGame: "contiguous (gameState (handleNewGame app))"
  by (simp add: handleNewGame_def contiguous_def newGame_existingRanks)

lemma app_ok_push:
  "app_ok app \<Longrightarrow> wf_state g \<Longrightarrow> app_ok \<lparr>gameState = g, history = saveToHistory app\<rparr>"
  by (simp add: app_ok_def saveToHistory_def)

lemma app_contiguous_push:
  "app_contiguous app \<Longrightarrow> contiguous g \<Longrightarrow>
     app_contiguous \<lparr>gameState = g, history = saveToHistory app\<rparr>"
  by (simp add: app_contiguous_def saveToHistory_def)

lemma app_ok_initialApp: "app_ok initialApp"
  by (simp add: app_ok_def wf_state_def initialApp_def initialGameState_def initialPlayer1_def
      initialPlayer2_def existingRanks_def)

lemma app_contiguous_initialApp: "app_contiguous initialApp"
  by (simp add: app_contiguous_def contiguous_def initialApp_def initialGameState_def
      initialPlayer1_def initialPlayer2_def existingRanks_def)

lemma app_ok_handleUndo: "app_ok app \<Longrightarrow> app_ok (handleUndo app)"
  by (auto simp: app_ok_def handleUndo_def dest: in_set_butlastD)

lemma app_contiguous_handleUndo: "app_contiguous app \<Longrightarrow> app_contiguous (handleUndo app)"
  by (auto simp: app_contiguous_def handleUndo_def dest: in_set_butlastD)

lemma step_app_ok:
  assumes "app_ok app" and "step x app = Inr app'"
  shows "app_ok app'"
proof -
  from assms(1) have w: "wf_state (gameState app)" by (simp add: app_ok_def)
  show ?thesis
  proof (cases x)
    case (ApplyPot n)
    with assms have a: "app' = handlePot n app" by simp
    show ?thesis
    proof (cases "find (\<lambda>p. idP p = currentPlayerId (gameState app)) (players (gameState app))")
      case None
      with assms(1) a show ?thesis by (simp add: handlePot_unfold)
    next
      case (Some cp)
      then have "app' = \<lparr>gameState = potUpdate n (gameState app), history = saveToHistory app\<rparr>"
        by (simp add: a handlePot_unfold)
      moreover from w have "wf_state (potUpdate n (gameState app))" by (rule wf_state_potUpdate)
      ultimately show ?thesis using assms(1) by (simp add: app_ok_push)
    qed
  next
    case (ApplyFoul n)
    with assms(2) obtain g where g: "foulUpdate n (gameState app) = Inr g"
      and a: "app' = \<lparr>gameState = g, history = saveToHistory app\<rparr>"
      by (auto simp: handleFoul_def split: sum.splits)
    from foulUpdate_fields(1,2) [OF g] w have "wf_state g" by (rule wf_state_cong)
    with assms(1) show ?thesis unfolding a by (rule app_ok_push)
  next
    case (SelectPlayer i)
    with assms have a: "app' = handlePlayerSelect i app" by simp
    show ?thesis
    proof (cases "i = currentPlayerId (gameState app)")
      case True
      with assms(1) a show ?thesis by (simp add: handlePlayerSelect_def)
    next
      case False
      have "wf_state ((gameState app)\<lparr>players :=
          map (\<lambda>p. if idP p = currentPlayerId (gameState app) then p\<lparr>break := 0\<rparr> else p)
            (players (gameState app)), currentPlayerId := i\<rparr>)"
        by (rule wf_state_cong [OF _ _ w]) (simp_all add: select_fields)
      with assms(1) False show ?thesis unfolding a handlePlayerSelect_def
        by (simp add: app_ok_push)
    qed
  next
    case AddPlayer
    with assms have a: "app' = handleAddPlayer app" by simp
    show ?thesis
    proof (cases "length (players (gameState app)) \<ge> 8")
      case True
      with assms(1) a show ?thesis by (simp add: handleAddPlayer_def)
    next
      case False
      then have "app' = \<lparr>gameState = addUpdate (gameState app), history = saveToHistory app\<rparr>"
        by (simp add: a handleAddPlayer_def)
      moreover from w False have "wf_state (addUpdate (gameState app))"
        by (intro wf_state_addUpdate) simp_all
      ultimately show ?thesis using assms(1) by (simp add: app_ok_push)
    qed
  next
    case (RemovePlayer i)
    show ?thesis
    proof (cases "length (players (gameState app)) \<le> 2")
      case True
      with assms RemovePlayer show ?thesis by (simp add: handleRemovePlayer_def)
    next
      case False
      with assms(2) RemovePlayer obtain g where g: "removeUpdate i (gameState app) = Inr g"
        and a: "app' = \<lparr>gameState = g, history = saveToHistory app\<rparr>"
        by (auto simp: handleRemovePlayer_def split: sum.splits)
      from w False g have "wf_state g" by (rule wf_state_removeUpdate)
      with assms(1) show ?thesis unfolding a by (rule app_ok_push)
    qed
  next
    case (RenamePlayer i nm)
    with assms have a: "app' = handleNameUpdate i nm app" by simp
    show ?thesis
    proof (cases "trim nm = []")
      case True
      with assms(1) a show ?thesis by (simp add: handleNameUpdate_def)
    next
      case False
      have "wf_state ((gameState app)\<lparr>players :=
          map (\<lambda>p. if idP p = i then p\<lparr>name := trim nm\<rparr> else p) (players (gameState app))\<rparr>)"
        by (rule wf_state_cong [OF _ _ w]) (simp_all add: rename_fields)
      with assms(1) False show ?thesis unfolding a handleNameUpdate_def handleNameChange_def
        by (simp add: app_ok_push)
    qed
  next
    case NewGame
    with assms have a: "app' = handleNewGame app" by simp
    from wf_state_newGame [OF w] show ?thesis
      unfolding a app_ok_def by (simp add: handleNewGame_def)
  next
    case Undo
    with assms show ?thesis by (auto intro: app_ok_handleUndo)
  qed
qed

lemma run_app_ok: "app_ok app \<Longrightarrow> run xs app = Inr app' \<Longrightarrow> app_ok app'"
proof (induction xs arbitrary: app)
  case Nil
  then show ?case by simp
next
  case (Cons x xs)
  from Cons.prems(2) obtain a where a: "step x app = Inr a" and r: "run xs a = Inr app'"
    by (auto split: sum.splits)
  from Cons.prems(1) a have "app_ok a" by (rule step_app_ok)
  then show ?case using r by (rule Cons.IH)
qed

subsection \<open>Runs\<close>

lemma contiguous_drop_top:
  assumes s: "set (E1 @ m # E2) = {1 .. int (length (E1 @ m # E2))}"
    and d: "distinct (E1 @ m # E2)"
    and top: "\<forall>r\<in>set (E1 @ m # E2). r \<le> m"
  shows "set (E1 @ E2) = {1 .. int (length (E1 @ E2))}"
proof -
  define k where "k = int (length (E1 @ E2)) + 1"
  have len: "int (length (E1 @ m # E2)) = k" by (simp add: k_def)
  have "k \<in> {1 .. k}" by (simp add: k_def)
  then have "k \<in> set (E1 @ m # E2)" unfolding s len .
  with top have "k \<le> m" by blast
  moreover have "m \<in> set (E1 @ m # E2)" by simp
  then have "m \<in> {1 .. k}" unfolding s len .
  ultimately have m: "m = k" by simp
  from d have "set (E1 @ E2) = set (E1 @ m # E2) - {m}" by auto
  also have "\<dots> = {1 .. k} - {m}" by (simp only: s len)
  also have "\<dots> = {1 .. k} - {k}" by (simp only: m)
  also have "\<dots> = {1 .. k - 1}" by auto
  finally show ?thesis by (simp add: k_def)
qed

lemma contiguous_removeUpdate:
  assumes w: "wf_state g" and c: "contiguous g" and r: "removeUpdate i g = Inr g'"
    and keep: "\<forall>p\<in>set (players g). idP p = i \<longrightarrow>
        (case rank p of None \<Rightarrow> True | Some m \<Rightarrow> \<forall>r\<in>set (existingRanks g). r \<le> m)"
  shows "contiguous g'"
proof (cases "i \<in> idP ` set (players g)")
  case False
  then have "filter (\<lambda>p. idP p \<noteq> i) (players g) = players g"
    by (auto simp: filter_id_conv)
  with removeUpdate_players [OF r] have "players g' = players g" by simp
  then have "existingRanks g' = existingRanks g" by (simp add: existingRanks_def)
  with c show ?thesis by (simp add: contiguous_def)
next
  case True
  then obtain j where j: "j < length (players g)" and ij: "idP (players g ! j) = i"
    by (auto simp: in_set_conv_nth)
  from w have d: "distinct (map idP (players g))" and dr: "distinct (existingRanks g)"
    by (simp_all add: wf_state_def)
  define xs where "xs = take j (players g)"
  define ys where "ys = drop (Suc j) (players g)"
  define pj where "pj = players g ! j"
  define E1 where "E1 = map the (filter (\<lambda>r. r \<noteq> None) (map rank xs))"
  define E2 where "E2 = map the (filter (\<lambda>r. r \<noteq> None) (map rank ys))"
  have fl: "filter (\<lambda>p. idP p \<noteq> i) (players g) = xs @ ys"
    using filter_key_remove [OF d j] unfolding ij xs_def ys_def .
  have pg': "players g' = xs @ ys"
    using removeUpdate_players [OF r] unfolding fl .
  have pg: "players g = xs @ pj # ys"
    unfolding xs_def ys_def pj_def using j by (rule id_take_nth_drop)
  have e': "existingRanks g' = E1 @ E2"
    unfolding existingRanks_def pg' E1_def E2_def by simp
  have e: "existingRanks g = E1 @ map the (filter (\<lambda>r. r \<noteq> None) [rank pj]) @ E2"
    unfolding existingRanks_def pg E1_def E2_def by simp
  have "pj \<in> set (players g)" unfolding pg by simp
  moreover have "idP pj = i" unfolding pj_def by (rule ij)
  ultimately have k: "case rank pj of None \<Rightarrow> True
      | Some m \<Rightarrow> \<forall>r\<in>set (existingRanks g). r \<le> m"
    using keep by blast
  show ?thesis
  proof (cases "rank pj")
    case None
    with e e' have "existingRanks g' = existingRanks g" by simp
    with c show ?thesis by (simp add: contiguous_def)
  next
    case (Some m)
    with e have em: "existingRanks g = E1 @ m # E2" by simp
    from k Some have top: "\<forall>r\<in>set (E1 @ m # E2). r \<le> m" by (simp add: em)
    from c have s: "set (E1 @ m # E2) = {1 .. int (length (E1 @ m # E2))}"
      unfolding contiguous_def em .
    from dr have dd: "distinct (E1 @ m # E2)" unfolding em .
    from s dd top have "set (E1 @ E2) = {1 .. int (length (E1 @ E2))}"
      by (rule contiguous_drop_top)
    then show ?thesis unfolding contiguous_def e' .
  qed
qed

lemma step_contiguous:
  assumes "app_ok app" and "app_contiguous app"
    and "case x of RemovePlayer i \<Rightarrow> removal_keeps_ranks i (gameState app) | _ \<Rightarrow> True"
    and "step x app = Inr app'"
  shows "app_contiguous app'"
proof -
  from assms(1) have w: "wf_state (gameState app)" by (simp add: app_ok_def)
  from assms(2) have c: "contiguous (gameState app)" by (simp add: app_contiguous_def)
  show ?thesis
  proof (cases x)
    case (ApplyPot n)
    with assms have a: "app' = handlePot n app" by simp
    show ?thesis
    proof (cases "find (\<lambda>p. idP p = currentPlayerId (gameState app)) (players (gameState app))")
      case None
      with assms(2) a show ?thesis by (simp add: handlePot_unfold)
    next
      case (Some cp)
      then have "app' = \<lparr>gameState = potUpdate n (gameState app), history = saveToHistory app\<rparr>"
        by (simp add: a handlePot_unfold)
      moreover from w c have "contiguous (potUpdate n (gameState app))"
        by (rule contiguous_potUpdate)
      ultimately show ?thesis using assms(2) by (simp add: app_contiguous_push)
    qed
  next
    case (ApplyFoul n)
    with assms(4) obtain g where g: "foulUpdate n (gameState app) = Inr g"
      and a: "app' = \<lparr>gameState = g, history = saveToHistory app\<rparr>"
      by (auto simp: handleFoul_def split: sum.splits)
    from foulUpdate_fields(2) [OF g] c have "contiguous g" by (rule contiguous_cong)
    with assms(2) show ?thesis unfolding a by (rule app_contiguous_push)
  next
    case (SelectPlayer i)
    with assms have a: "app' = handlePlayerSelect i app" by simp
    show ?thesis
    proof (cases "i = currentPlayerId (gameState app)")
      case True
      with assms(2) a show ?thesis by (simp add: handlePlayerSelect_def)
    next
      case False
      have "contiguous ((gameState app)\<lparr>players :=
          map (\<lambda>p. if idP p = currentPlayerId (gameState app) then p\<lparr>break := 0\<rparr> else p)
            (players (gameState app)), currentPlayerId := i\<rparr>)"
        by (rule contiguous_cong [OF _ c]) (simp add: select_fields)
      with assms(2) False show ?thesis unfolding a handlePlayerSelect_def
        by (simp add: app_contiguous_push)
    qed
  next
    case AddPlayer
    with assms have a: "app' = handleAddPlayer app" by simp
    show ?thesis
    proof (cases "length (players (gameState app)) \<ge> 8")
      case True
      with assms(2) a show ?thesis by (simp add: handleAddPlayer_def)
    next
      case False
      then have "app' = \<lparr>gameState = addUpdate (gameState app), history = saveToHistory app\<rparr>"
        by (simp add: a handleAddPlayer_def)
      moreover from c have "contiguous (addUpdate (gameState app))"
        by (rule contiguous_addUpdate)
      ultimately show ?thesis using assms(2) by (simp add: app_contiguous_push)
    qed
  next
    case (RemovePlayer i)
    show ?thesis
    proof (cases "length (players (gameState app)) \<le> 2")
      case True
      with assms(2,4) RemovePlayer show ?thesis by (simp add: handleRemovePlayer_def)
    next
      case False
      with assms(4) RemovePlayer obtain g where g: "removeUpdate i (gameState app) = Inr g"
        and a: "app' = \<lparr>gameState = g, history = saveToHistory app\<rparr>"
        by (auto simp: handleRemovePlayer_def split: sum.splits)
      from assms(3) RemovePlayer False
      have "\<forall>p\<in>set (players (gameState app)). idP p = i \<longrightarrow>
          (case rank p of None \<Rightarrow> True
           | Some m \<Rightarrow> \<forall>r\<in>set (existingRanks (gameState app)). r \<le> m)"
        by (simp add: removal_keeps_ranks_def)
      with w c g have "contiguous g" by (rule contiguous_removeUpdate)
      with assms(2) show ?thesis unfolding a by (rule app_contiguous_push)
    qed
  next
    case (RenamePlayer i nm)
    with assms have a: "app' = handleNameUpdate i nm app" by simp
    show ?thesis
    proof (cases "trim nm = []")
      case True
      with assms(2) a show ?thesis by (simp add: handleNameUpdate_def)
    next
      case False
      have "contiguous ((gameState app)\<lparr>players :=
          map (\<lambda>p. if idP p = i then p\<lparr>name := trim nm\<rparr> else p) (players (gameState app))\<rparr>)"
        by (rule contiguous_cong [OF _ c]) (simp add: rename_fields)
      with assms(2) False show ?thesis unfolding a handleNameUpdate_def handleNameChange_def
        by (simp add: app_contiguous_push)
    qed
  next
    case NewGame
    with assms have a: "app' = handleNewGame app" by simp
    from contiguous_newGame [of app] show ?thesis
      unfolding a app_contiguous_def by (simp add: handleNewGame_def)
  next
    case Undo
    with assms show ?thesis by (auto intro: app_contiguous_handleUndo)
  qed
qed

lemma run_contiguous:
  "app_ok app \<Longrightarrow> app_contiguous app \<Longrightarrow> removals_keep_ranks xs app \<Longrightarrow>
     run xs app = Inr app' \<Longrightarrow> app_contiguous app'"
proof (induction xs arbitrary: app)
  case Nil
  then show ?case by simp
next
  case (Cons x xs)
  from Cons.prems(4) obtain a where a: "step x app = Inr a" and r: "run xs a = Inr app'"
    by (auto split: sum.splits)
  from Cons.prems(3) a
  have nx: "case x of RemovePlayer i \<Rightarrow> removal_keeps_ranks i (gameState app) | _ \<Rightarrow> True"
    and nxs: "removals_keep_ranks xs a"
    by simp_all
  from Cons.prems(1) a have "app_ok a" by (rule step_app_ok)
  moreover from Cons.prems(1,2) nx a have "app_contiguous a" by (rule step_contiguous)
  ultimately show ?case using nxs r by (rule Cons.IH)
qed

lemma wf_state_step_total:
  assumes "app_ok app"
    and "case x of RemovePlayer i \<Rightarrow> i \<in> set (map idP (players (gameState app))) | _ \<Rightarrow> True"
  shows "\<exists>app'. step x app = Inr app'"
proof (rule step_total)
  from assms(1) show "distinct (map idP (players (gameState app)))"
    by (simp add: app_ok_def wf_state_def)
  from assms(1) have "2 \<le> length (players (gameState app))"
    by (simp add: app_ok_def wf_state_def)
  then show "players (gameState app) \<noteq> []" by auto
  from assms(2) show "\<forall>i. x = RemovePlayer i \<longrightarrow> i \<in> set (map idP (players (gameState app)))"
    by auto
qed

lemma run_total:
  "app_ok app \<Longrightarrow> removals_exist xs app \<Longrightarrow> \<exists>app'. run xs app = Inr app'"
proof (induction xs arbitrary: app)
  case Nil
  then show ?case by simp
next
  case (Cons x xs)
  from Cons.prems(2)
  have e: "case x of RemovePlayer i \<Rightarrow> i \<in> set (map idP (players (gameState app))) | _ \<Rightarrow> True"
    by simp
  from wf_state_step_total [OF Cons.prems(1) e] obtain a where a: "step x app = Inr a" ..
  from Cons.prems(1) a have "app_ok a" by (rule step_app_ok)
  moreover from Cons.prems(2) a have "removals_exist xs a" by simp
  ultimately obtain app' where "run xs a = Inr app'" using Cons.IH by blast
  with a show ?case by simp
qed

subsection \<open>A player before and after an action\<close>

lemma next_rank_case:
  "(case existingRanks g of [] \<Rightarrow> Some 1 | r # rs \<Rightarrow> Some (math_max r rs + 1)) =
     Some (next_rank g)"
  by (simp add: next_rank_def split: list.splits)

lemma potUpdate_member:
  assumes "p' \<in> set (players (potUpdate n g))"
  shows "\<exists>p\<in>set (players g). idP p = idP p' \<and>
     (rank p' = rank p \<or> rank p' = rank_or (rank p) (Some (next_rank g)) \<or>
      rank p' = rank_or (rank p) None)"
proof (cases "find (\<lambda>p. idP p = currentPlayerId g) (players g)")
  case None
  with assms show ?thesis by (auto simp: potUpdate_def)
next
  case (Some cp)
  define nr where "nr = (if break cp + n \<ge> 100 \<and> rank cp = None
      then Some (next_rank g) else None)"
  have "players (potUpdate n g) =
      map (\<lambda>p. if idP p = currentPlayerId g
                then p\<lparr>score := score p + n, break := break cp + n,
                       rank := rank_or (rank p) nr\<rparr>
                else p) (players g)"
    unfolding potUpdate_def Some Let_def option.case next_rank_case nr_def by simp
  with assms obtain p where p: "p \<in> set (players g)"
    and p': "p' = (if idP p = currentPlayerId g
                then p\<lparr>score := score p + n, break := break cp + n,
                       rank := rank_or (rank p) nr\<rparr>
                else p)"
    by auto
  show ?thesis
  proof (cases "idP p = currentPlayerId g")
    case True
    with p' have "idP p' = idP p" and "rank p' = rank_or (rank p) nr" by simp_all
    with p show ?thesis unfolding nr_def by (cases "break cp + n \<ge> 100 \<and> rank cp = None") auto
  next
    case False
    with p p' show ?thesis by auto
  qed
qed

lemma rank_or_assigned: "r \<noteq> 0 \<Longrightarrow> rank_or (Some r) b = Some r"
  by (simp add: rank_or_def)

lemma map_member_same:
  assumes "p' \<in> set (map f ps)" and "\<And>p. idP (f p) = idP p \<and> rank (f p) = rank p"
  shows "\<exists>p\<in>set ps. idP p = idP p' \<and> rank p' = rank p"
proof -
  from assms(1) obtain p where "p \<in> set ps" and "p' = f p" by auto
  with assms(2) [of p] show ?thesis by auto
qed

lemma step_member:
  assumes "x \<noteq> NewGame" and "x \<noteq> Undo" and "step x app = Inr app'"
    and "p' \<in> set (players (gameState app'))"
  shows "(\<exists>p\<in>set (players (gameState app)). idP p = idP p' \<and>
            (rank p' = rank p \<or> rank p' = rank_or (rank p) (Some (next_rank (gameState app))) \<or>
             rank p' = rank_or (rank p) None)) \<or>
         (\<forall>q\<in>set (players (gameState app)). idP q < idP p')"
proof (cases x)
  case (ApplyPot n)
  with assms(3) have a: "app' = handlePot n app" by simp
  show ?thesis
  proof (cases "find (\<lambda>p. idP p = currentPlayerId (gameState app)) (players (gameState app))")
    case None
    with a assms(4) show ?thesis by (auto simp: handlePot_unfold)
  next
    case (Some cp)
    with a assms(4) have "p' \<in> set (players (potUpdate n (gameState app)))"
      by (simp add: handlePot_unfold)
    from potUpdate_member [OF this] show ?thesis by blast
  qed
next
  case (ApplyFoul n)
  with assms(3) obtain g where g: "foulUpdate n (gameState app) = Inr g"
    and a: "app' = \<lparr>gameState = g, history = saveToHistory app\<rparr>"
    by (auto simp: handleFoul_def split: sum.splits)
  from g obtain f where "players g = map f (players (gameState app))"
    and "\<And>p. idP (f p) = idP p \<and> rank (f p) = rank p"
    unfolding foulUpdate_def Let_def by (fastforce split: option.splits)
  with assms(4) a
  have "\<exists>p\<in>set (players (gameState app)). idP p = idP p' \<and> rank p' = rank p"
    by (intro map_member_same [of p' f]) simp_all
  then show ?thesis by blast
next
  case (SelectPlayer i)
  with assms(3) have a: "app' = handlePlayerSelect i app" by simp
  show ?thesis
  proof (cases "i = currentPlayerId (gameState app)")
    case True
    with a assms(4) show ?thesis by (auto simp: handlePlayerSelect_def)
  next
    case False
    with a assms(4) have "p' \<in> set (map (\<lambda>p. if idP p = currentPlayerId (gameState app)
        then p\<lparr>break := 0\<rparr> else p) (players (gameState app)))"
      by (simp add: handlePlayerSelect_def)
    then have "\<exists>p\<in>set (players (gameState app)). idP p = idP p' \<and> rank p' = rank p"
      by (rule map_member_same) simp
    then show ?thesis by blast
  qed
next
  case AddPlayer
  with assms(3) have a: "app' = handleAddPlayer app" by simp
  show ?thesis
  proof (cases "length (players (gameState app)) \<ge> 8")
    case True
    with a assms(4) show ?thesis by (auto simp: handleAddPlayer_def)
  next
    case False
    from addUpdate_players [of "gameState app"] obtain q
      where q: "players (addUpdate (gameState app)) = players (gameState app) @ [q]"
        "\<forall>p\<in>set (players (gameState app)). idP p < idP q"
      by blast
    from False a assms(4) q(1) have "p' \<in> set (players (gameState app)) \<or> p' = q"
      by (auto simp: handleAddPlayer_def)
    with q(2) show ?thesis by auto
  qed
next
  case (RemovePlayer i)
  show ?thesis
  proof (cases "length (players (gameState app)) \<le> 2")
    case True
    with assms(3,4) RemovePlayer show ?thesis by (auto simp: handleRemovePlayer_def)
  next
    case False
    with assms(3) RemovePlayer obtain g where g: "removeUpdate i (gameState app) = Inr g"
      and a: "app' = \<lparr>gameState = g, history = saveToHistory app\<rparr>"
      by (auto simp: handleRemovePlayer_def split: sum.splits)
    from removeUpdate_players [OF g] a assms(4) show ?thesis by auto
  qed
next
  case (RenamePlayer i nm)
  with assms(3) have a: "app' = handleNameUpdate i nm app" by simp
  show ?thesis
  proof (cases "trim nm = []")
    case True
    with a assms(4) show ?thesis by (auto simp: handleNameUpdate_def)
  next
    case False
    with a assms(4) have "p' \<in> set (map (\<lambda>p. if idP p = i then p\<lparr>name := trim nm\<rparr> else p)
        (players (gameState app)))"
      by (simp add: handleNameUpdate_def handleNameChange_def)
    then have "\<exists>p\<in>set (players (gameState app)). idP p = idP p' \<and> rank p' = rank p"
      by (rule map_member_same) simp
    then show ?thesis by blast
  qed
next
  case NewGame
  with assms(1) show ?thesis by simp
next
  case Undo
  with assms(2) show ?thesis by simp
qed

lemma same_id_same_player:
  assumes "distinct (map idP ps)" and "p \<in> set ps" and "q \<in> set ps" and "idP p = idP q"
  shows "p = q"
  using assms by (meson distinct_map inj_onD)

lemma step_rank_kept:
  assumes "app_ok app" and "x \<noteq> NewGame" and "x \<noteq> Undo" and "step x app = Inr app'"
    and "p \<in> set (players (gameState app))" and "rank p = Some r"
    and "p' \<in> set (players (gameState app'))" and "idP p' = idP p"
  shows "rank p' = Some r"
proof -
  from assms(1) have d: "distinct (map idP (players (gameState app)))"
    and pos: "\<forall>r\<in>set (existingRanks (gameState app)). 1 \<le> r"
    by (simp_all add: app_ok_def wf_state_def)
  from assms(5,6) have "r \<in> set (existingRanks (gameState app))"
    by (rule rank_in_existingRanks)
  with pos have r: "r \<noteq> 0" by force
  from step_member [OF assms(2,3,4,7)] show ?thesis
  proof
    assume "\<exists>p\<in>set (players (gameState app)). idP p = idP p' \<and>
            (rank p' = rank p \<or> rank p' = rank_or (rank p) (Some (next_rank (gameState app))) \<or>
             rank p' = rank_or (rank p) None)"
    then obtain q where q: "q \<in> set (players (gameState app))" "idP q = idP p'"
      and k: "rank p' = rank q \<or> rank p' = rank_or (rank q) (Some (next_rank (gameState app))) \<or>
             rank p' = rank_or (rank q) None"
      by blast
    from d q(1) assms(5) q(2) assms(8) have "q = p" by (intro same_id_same_player) simp_all
    with k assms(6) r show ?thesis by (auto simp: rank_or_assigned)
  next
    assume "\<forall>q\<in>set (players (gameState app)). idP q < idP p'"
    with assms(5,8) show ?thesis by force
  qed
qed

lemma pot_rank_greater:
  assumes "app_ok app"
    and "p \<in> set (players (gameState app))" and "rank p = None"
    and "p' \<in> set (players (gameState (handlePot n app)))" and "idP p' = idP p"
    and "rank p' = Some r"
  shows "\<forall>r'\<in>set (existingRanks (gameState app)). r' < r"
proof -
  from assms(1) have d: "distinct (map idP (players (gameState app)))"
    by (simp add: app_ok_def wf_state_def)
  have "step (ApplyPot n) app = Inr (handlePot n app)" by simp
  from step_member [OF _ _ this assms(4)] have
    "(\<exists>p\<in>set (players (gameState app)). idP p = idP p' \<and>
            (rank p' = rank p \<or> rank p' = rank_or (rank p) (Some (next_rank (gameState app))) \<or>
             rank p' = rank_or (rank p) None)) \<or>
         (\<forall>q\<in>set (players (gameState app)). idP q < idP p')"
    by simp
  then show ?thesis
  proof
    assume "\<exists>p\<in>set (players (gameState app)). idP p = idP p' \<and>
            (rank p' = rank p \<or> rank p' = rank_or (rank p) (Some (next_rank (gameState app))) \<or>
             rank p' = rank_or (rank p) None)"
    then obtain q where q: "q \<in> set (players (gameState app))" "idP q = idP p'"
      and k: "rank p' = rank q \<or> rank p' = rank_or (rank q) (Some (next_rank (gameState app))) \<or>
             rank p' = rank_or (rank q) None"
      by blast
    from d q(1) assms(2) q(2) assms(5) have "q = p" by (intro same_id_same_player) simp_all
    with k assms(3,6) have "r = next_rank (gameState app)" by (auto simp: rank_or_def)
    then show ?thesis by (simp add: next_rank_greater)
  next
    assume "\<forall>q\<in>set (players (gameState app)). idP q < idP p'"
    with assms(2,5) show ?thesis by force
  qed
qed

section \<open>Evaluation on concrete states\<close>

lemmas eval_defs =
  initialApp_def initialGameState_def initialPlayer1_def initialPlayer2_def player_prefix_def
  saveToHistory_def existingRanks_def rank_or_def potUpdate_def potCommit_def handlePotClick_def
  timerFire_def handlePot_def foulUpdate_def
  handleFoul_def handlePlayerSelect_def handleUndo_def handleNewGame_def addUpdate_def
  handleAddPlayer_def removeUpdate_def handleRemovePlayer_def handleNameChange_def
  handleNameUpdate_def math_max_def js_rem_def at_def at_opt_def number_toString_def
  trim_def is_white_space_def Let_def

lemma run_after_first_century:
  "run (replicate 14 (ApplyPot 7) @ [ApplyPot 2]) initialApp = Inr after_first_century"
  by code_simp

lemma run_before_second_century:
  "run (replicate 14 (ApplyPot 7) @ [ApplyPot 2, SelectPlayer 2] @ replicate 14 (ApplyPot 7))
     initialApp = Inr before_second_century"
  by code_simp

section \<open>Undo of an action that nothing disturbs\<close>

text \<open>
  The timer and its click as one step: with no timer pending, the click and the firing
  of its timer are \<open>handlePot\<close>.
\<close>

lemma undisturbed_pot:
  "timerFire (handlePotClick n \<lparr>current = app, pending = []\<rparr>) =
     \<lparr>current = handlePot n app, pending = []\<rparr>"
  by (simp add: handlePot_def handlePotClick_def timerFire_def split: option.splits)

text \<open>
  For every state and every action other than a new game and an undo that is not
  rejected, where a pot is one that nothing disturbs, the action followed by
  \<^verbatim>\<open>handleUndo\<close> gives back the state and the history from before the action. The action
  does return a state when the ids are pairwise distinct, there is a player, and a
  removal names an existing player. With an empty history \<^verbatim>\<open>handleUndo\<close> changes nothing.
\<close>

lemma undisturbed_undo_inverse:
  "(x \<noteq> NewGame \<and> x \<noteq> Undo \<and> \<not> rejected x app \<and> step x app = Inr app'
      \<longrightarrow> handleUndo app' = app) \<and>
   (distinct (map idP (players (gameState app))) \<and> players (gameState app) \<noteq> [] \<and>
    (\<forall>i. x = RemovePlayer i \<longrightarrow> i \<in> set (map idP (players (gameState app))))
      \<longrightarrow> (\<exists>app'. step x app = Inr app')) \<and>
   (history app = [] \<longrightarrow> handleUndo app = app)"
  using step_then_undo [of x app app'] step_total [of app x]
  by (simp add: handleUndo_def)

text \<open>A pot, a foul and a removal undone, and an undo in the initial state.\<close>

lemma undisturbed_undo_inverse_example:
  "handleUndo (handlePot 7 initialApp) = initialApp \<and>
   (\<exists>a. handleFoul 4 initialApp = Inr a \<and> handleUndo a = initialApp) \<and>
   (\<exists>a. handleRemovePlayer 2 (handleAddPlayer initialApp) = Inr a \<and>
        handleUndo a = handleAddPlayer initialApp) \<and>
   handleUndo initialApp = initialApp"
proof -
  have "\<not> rejected (ApplyPot 7) initialApp"
    by (simp add: eval_defs)
  with undisturbed_undo_inverse [of "ApplyPot 7" initialApp "handlePot 7 initialApp"]
  have 1: "handleUndo (handlePot 7 initialApp) = initialApp" by simp
  from undisturbed_undo_inverse [of "ApplyFoul 4" initialApp]
  have "\<exists>a. handleFoul 4 initialApp = Inr a" by (simp add: eval_defs)
  then obtain a where a: "handleFoul 4 initialApp = Inr a" ..
  with undisturbed_undo_inverse [of "ApplyFoul 4" initialApp a]
  have 2: "\<exists>a. handleFoul 4 initialApp = Inr a \<and> handleUndo a = initialApp" by simp
  have ids: "map idP (players (gameState (handleAddPlayer initialApp))) = [1, 2, 3]"
    by (simp add: eval_defs)
  have len: "length (players (gameState (handleAddPlayer initialApp))) = 3"
    by (simp add: eval_defs)
  then have ne: "players (gameState (handleAddPlayer initialApp)) \<noteq> []" by auto
  from undisturbed_undo_inverse [of "RemovePlayer 2" "handleAddPlayer initialApp"] ids ne
  have "\<exists>b. handleRemovePlayer 2 (handleAddPlayer initialApp) = Inr b" by simp
  then obtain b where b: "handleRemovePlayer 2 (handleAddPlayer initialApp) = Inr b" ..
  from len have "\<not> rejected (RemovePlayer 2) (handleAddPlayer initialApp)" by simp
  with b undisturbed_undo_inverse [of "RemovePlayer 2" "handleAddPlayer initialApp" b]
  have 3: "\<exists>a. handleRemovePlayer 2 (handleAddPlayer initialApp) = Inr a \<and>
        handleUndo a = handleAddPlayer initialApp" by simp
  from undisturbed_undo_inverse [of Undo initialApp]
  have 4: "handleUndo initialApp = initialApp" by (simp add: initialApp_def)
  from 1 2 3 4 show ?thesis by blast
qed

section \<open>The claims\<close>

text \<open>
  C1. In a state with at least two players and pairwise distinct ids, where the player
  at index \<open>i\<close> is the current one, \<^verbatim>\<open>handleFoul\<close> returns normally; the player at
  index \<open>(i + 1) mod length\<close> has the penalty added to the score, the current player has
  the break set to 0 and nothing else changed (the score stays), every other player and
  \<^verbatim>\<open>currentPlayerId\<close> are as before, and the state before is pushed on the history.
\<close>

theorem handleFoul_next_player:
  assumes "2 \<le> length (players (gameState app))"
    and "distinct (map idP (players (gameState app)))"
    and "i < length (players (gameState app))"
    and "idP (players (gameState app) ! i) = currentPlayerId (gameState app)"
  shows "let ps = players (gameState app); j = (i + 1) mod length ps in
     handleFoul penaltyValue app =
       Inr \<lparr>gameState = (gameState app)\<lparr>players :=
               ps[j := (ps ! j)\<lparr>score := score (ps ! j) + penaltyValue\<rparr>,
                  i := (ps ! i)\<lparr>break := 0\<rparr>]\<rparr>,
            history = history app @ [gameState app]\<rparr>"
proof -
  define ps where "ps = players (gameState app)"
  define j where "j = (i + 1) mod length ps"
  from assms have n: "2 \<le> length ps" and d: "distinct (map idP ps)" and i: "i < length ps"
    and c: "currentPlayerId (gameState app) = idP (ps ! i)"
    by (simp_all add: ps_def)
  from n have pos: "0 < length ps" by linarith
  then have j: "j < length ps" unfolding j_def by (rule mod_less_divisor)
  have ij: "i \<noteq> j"
  proof (cases "i + 1 < length ps")
    case True
    then show ?thesis by (simp add: j_def)
  next
    case False
    with i have "i + 1 = length ps" by simp
    with n show ?thesis by (simp add: j_def)
  qed
  have fi: "findIndex (\<lambda>p. idP p = idP (ps ! i)) ps = int i"
    using d i by (rule findIndex_distinct)
  have "js_rem (int i + 1) (int (length ps)) = Some ((int i + 1) mod int (length ps))"
    using pos by (intro js_rem_nonneg) simp_all
  moreover have "(int i + 1) mod int (length ps) = int j"
    by (simp add: j_def zmod_int add.commute)
  ultimately have r: "js_rem (int i + 1) (int (length ps)) = Some (int j)"
    by simp
  have a: "at_opt ps (Some (int j)) = Some (ps ! j)"
    using j by (simp add: at_opt_def at_def)
  have m: "map (\<lambda>p. if idP p = idP (ps ! j) then p\<lparr>score := score p + penaltyValue\<rparr>
                     else if idP p = idP (ps ! i) then p\<lparr>break := 0\<rparr> else p) ps
           = ps[j := (ps ! j)\<lparr>score := score (ps ! j) + penaltyValue\<rparr>, i := (ps ! i)\<lparr>break := 0\<rparr>]"
    using d i j ij by (rule map_key_update2)
  have "foulUpdate penaltyValue (gameState app) =
      Inr ((gameState app)\<lparr>players :=
               ps[j := (ps ! j)\<lparr>score := score (ps ! j) + penaltyValue\<rparr>,
                  i := (ps ! i)\<lparr>break := 0\<rparr>]\<rparr>)"
    unfolding foulUpdate_def Let_def ps_def [symmetric] c fi r a
    by (simp add: m)
  then show ?thesis
    unfolding handleFoul_def saveToHistory_def Let_def ps_def [symmetric] j_def [symmetric]
    by simp
qed

text \<open>
  The scenario of the specification: player 1 has potted 16, a foul of 4 gives player 2
  the score 4, and player 1 keeps the score 16 with the break 0.
\<close>

theorem handleFoul_next_player_witness:
  "handleFoul 4
     \<lparr>gameState = \<lparr>players = [initialPlayer1\<lparr>score := 16, break := 16\<rparr>, initialPlayer2],
                    currentPlayerId = 1\<rparr>, history = []\<rparr> =
   Inr \<lparr>gameState = \<lparr>players = [initialPlayer1\<lparr>score := 16, break := 0\<rparr>,
                                   initialPlayer2\<lparr>score := 4\<rparr>],
                        currentPlayerId = 1\<rparr>,
        history = [\<lparr>players = [initialPlayer1\<lparr>score := 16, break := 16\<rparr>, initialPlayer2],
                    currentPlayerId = 1\<rparr>]\<rparr>"
  using handleFoul_next_player
    [of "\<lparr>gameState = \<lparr>players = [initialPlayer1\<lparr>score := 16, break := 16\<rparr>, initialPlayer2],
                    currentPlayerId = 1\<rparr>, history = []\<rparr>" 0 4]
  by (simp add: initialPlayer1_def initialPlayer2_def Let_def)

text \<open>
  C2. In a state with pairwise distinct ids whose current player is the one at index
  \<open>i\<close>, \<^verbatim>\<open>handlePot\<close> adds the points to that player's score and break; when the new
  break is at least 100 and the player has no rank, the rank becomes the largest rank
  assigned among all players plus 1, or 1 when none is assigned; otherwise a rank other
  than 0 is kept. No other player changes, \<^verbatim>\<open>currentPlayerId\<close> stays, and the state before
  is pushed on the history.
\<close>

theorem handlePot_current_player:
  assumes "distinct (map idP (players (gameState app)))"
    and "i < length (players (gameState app))"
    and "idP (players (gameState app) ! i) = currentPlayerId (gameState app)"
  shows "let ps = players (gameState app); p = ps ! i;
             app' = handlePot points app; p' = players (gameState app') ! i;
             assigned = {r. \<exists>q\<in>set ps. rank q = Some r}
         in players (gameState app') = ps[i := p'] \<and>
            idP p' = idP p \<and> name p' = name p \<and>
            score p' = score p + points \<and> break p' = break p + points \<and>
            (break p + points \<ge> 100 \<and> rank p = None \<longrightarrow>
               rank p' = Some (if assigned = {} then 1 else Max assigned + 1)) \<and>
            (\<not> (break p + points \<ge> 100 \<and> rank p = None) \<and> rank p \<noteq> Some 0 \<longrightarrow>
               rank p' = rank p) \<and>
            currentPlayerId (gameState app') = currentPlayerId (gameState app) \<and>
            history app' = history app @ [gameState app]"
proof -
  define ps where "ps = players (gameState app)"
  define nr where "nr = (if break (ps ! i) + points \<ge> 100 \<and> rank (ps ! i) = None
     then Some (if {r. \<exists>q\<in>set ps. rank q = Some r} = {} then 1
                else Max {r. \<exists>q\<in>set ps. rank q = Some r} + 1) else None)"
  define p' where "p' = (ps ! i)\<lparr>score := score (ps ! i) + points, break := break (ps ! i) + points,
      rank := rank_or (rank (ps ! i)) nr\<rparr>"
  from assms have d: "distinct (map idP ps)" and i: "i < length ps"
    and c: "currentPlayerId (gameState app) = idP (ps ! i)"
    by (simp_all add: ps_def)
  have f: "find (\<lambda>p. idP p = idP (ps ! i)) ps = Some (ps ! i)"
    using d i by (rule find_distinct)
  have m: "map (\<lambda>p. if idP p = idP (ps ! i)
               then p\<lparr>score := score p + points, break := break (ps ! i) + points,
                      rank := rank_or (rank p) nr\<rparr> else p) ps = ps[i := p']"
    unfolding p'_def using d i by (rule map_key_update)
  have se: "set (existingRanks (gameState app)) = {r. \<exists>q\<in>set ps. rank q = Some r}"
    by (simp add: set_existingRanks ps_def)
  have u: "potUpdate points (gameState app) = (gameState app)\<lparr>players := ps[i := p']\<rparr>"
    unfolding potUpdate_def ps_def [symmetric] c f next_rank_eq se
    by (simp add: Let_def m [unfolded nr_def])
  have h: "handlePot points app =
      \<lparr>gameState = (gameState app)\<lparr>players := ps[i := p']\<rparr>, history = history app @ [gameState app]\<rparr>"
    unfolding handlePot_unfold ps_def [symmetric] c f u [symmetric] saveToHistory_def by simp
  have pi: "players (gameState (handlePot points app)) ! i = p'"
    using i by (simp add: h)
  show ?thesis
    unfolding Let_def ps_def [symmetric] pi
    by (simp add: h p'_def nr_def rank_or_def)
qed

text \<open>
  A break going from 98 to 100 gives rank 1; with rank 1 taken, the next century gives
  rank 2; a player who has a rank keeps it.
\<close>

theorem handlePot_current_player_witness:
  "(let p' = players (gameState (handlePot 2
       \<lparr>gameState = \<lparr>players = [initialPlayer1\<lparr>score := 98, break := 98\<rparr>, initialPlayer2],
                      currentPlayerId = 1\<rparr>, history = []\<rparr>)) ! 0
    in score p' = 100 \<and> break p' = 100 \<and> rank p' = Some 1) \<and>
   (let p' = players (gameState (handlePot 7
       \<lparr>gameState = \<lparr>players = [initialPlayer1\<lparr>score := 100, break := 100, rank := Some 1\<rparr>,
                                  initialPlayer2\<lparr>score := 98, break := 98\<rparr>],
                      currentPlayerId = 2\<rparr>, history = []\<rparr>)) ! 1
    in score p' = 105 \<and> break p' = 105 \<and> rank p' = Some 2) \<and>
   (let p' = players (gameState (handlePot 7
       \<lparr>gameState = \<lparr>players = [initialPlayer1\<lparr>score := 100, break := 100, rank := Some 1\<rparr>,
                                  initialPlayer2],
                      currentPlayerId = 1\<rparr>, history = []\<rparr>)) ! 0
    in score p' = 107 \<and> break p' = 107 \<and> rank p' = Some 1)"
  using handlePot_current_player
    [of "\<lparr>gameState = \<lparr>players = [initialPlayer1\<lparr>score := 98, break := 98\<rparr>, initialPlayer2],
                    currentPlayerId = 1\<rparr>, history = []\<rparr>" 0 2]
    handlePot_current_player
    [of "\<lparr>gameState = \<lparr>players = [initialPlayer1\<lparr>score := 100, break := 100, rank := Some 1\<rparr>,
                                initialPlayer2\<lparr>score := 98, break := 98\<rparr>],
                    currentPlayerId = 2\<rparr>, history = []\<rparr>" 1 7]
    handlePot_current_player
    [of "\<lparr>gameState = \<lparr>players = [initialPlayer1\<lparr>score := 100, break := 100, rank := Some 1\<rparr>,
                                initialPlayer2],
                    currentPlayerId = 1\<rparr>, history = []\<rparr>" 0 7]
  by (simp add: initialPlayer1_def initialPlayer2_def Let_def)

text \<open>
  C3. In a state with at least three players and pairwise distinct ids, removing the id
  of the player at index \<open>i\<close> returns normally and leaves the other players in their
  order. If that player was not the current one, \<^verbatim>\<open>currentPlayerId\<close> stays; if it was,
  the new current player is the one at index \<open>i\<close> of the new list, or at index 0 when
  \<open>i\<close> was the last index.
\<close>

theorem handleRemovePlayer_exact:
  assumes "3 \<le> length (players (gameState app))"
    and "distinct (map idP (players (gameState app)))"
    and "i < length (players (gameState app))"
    and "idP (players (gameState app) ! i) = x"
  shows "let ps = players (gameState app); ps' = take i ps @ drop (Suc i) ps in
     handleRemovePlayer x app =
       Inr \<lparr>gameState = (gameState app)\<lparr>players := ps',
               currentPlayerId :=
                 (if currentPlayerId (gameState app) = x
                  then idP (ps' ! (if i = length ps - 1 then 0 else i))
                  else currentPlayerId (gameState app))\<rparr>,
            history = history app @ [gameState app]\<rparr>"
proof -
  define ps where "ps = players (gameState app)"
  define ps' where "ps' = take i ps @ drop (Suc i) ps"
  define k where "k = (if i = length ps - 1 then 0 else i)"
  from assms have n: "3 \<le> length ps" and d: "distinct (map idP ps)" and i: "i < length ps"
    and x: "x = idP (ps ! i)"
    by (simp_all add: ps_def)
  have l: "length ps' = length ps - 1" using i by (simp add: ps'_def)
  have fi: "findIndex (\<lambda>p. idP p = idP (ps ! i)) ps = int i"
    using d i by (rule findIndex_distinct)
  have fl: "filter (\<lambda>p. idP p \<noteq> idP (ps ! i)) ps = ps'"
    unfolding ps'_def using d i by (rule filter_key_remove)
  have "int i mod int (length ps') = int k"
    using n i l by (auto simp: k_def zmod_int [symmetric])
  then have r: "js_rem (int i) (int (length ps')) = Some (int k)"
    using n l by (simp add: js_rem_nonneg)
  have kl: "k < length ps'" using n i l by (auto simp: k_def)
  then have a: "at_opt ps' (Some (int k)) = Some (ps' ! k)"
    by (simp add: at_opt_def at_def)
  have "removeUpdate x (gameState app) =
      Inr ((gameState app)\<lparr>players := ps',
               currentPlayerId := (if currentPlayerId (gameState app) = x then idP (ps' ! k)
                  else currentPlayerId (gameState app))\<rparr>)"
    unfolding removeUpdate_def Let_def ps_def [symmetric] x fi fl r a
    by simp
  moreover have "\<not> length (players (gameState app)) \<le> 2" using n by (simp add: ps_def)
  ultimately show ?thesis
    unfolding handleRemovePlayer_def saveToHistory_def Let_def ps_def [symmetric]
      ps'_def [symmetric] k_def [symmetric]
    by simp
qed

text \<open>
  Three players: removing the current last one wraps to the first, removing the current
  first one moves to the new first, removing another one keeps the current player.
\<close>

theorem handleRemovePlayer_exact_witness:
  "handleRemovePlayer 3
     \<lparr>gameState = \<lparr>players = [initialPlayer1, initialPlayer2, initialPlayer2\<lparr>idP := 3\<rparr>],
                    currentPlayerId = 3\<rparr>, history = []\<rparr> =
   Inr \<lparr>gameState = \<lparr>players = [initialPlayer1, initialPlayer2], currentPlayerId = 1\<rparr>,
        history = [\<lparr>players = [initialPlayer1, initialPlayer2, initialPlayer2\<lparr>idP := 3\<rparr>],
                    currentPlayerId = 3\<rparr>]\<rparr> \<and>
   handleRemovePlayer 1
     \<lparr>gameState = \<lparr>players = [initialPlayer1, initialPlayer2, initialPlayer2\<lparr>idP := 3\<rparr>],
                    currentPlayerId = 1\<rparr>, history = []\<rparr> =
   Inr \<lparr>gameState = \<lparr>players = [initialPlayer2, initialPlayer2\<lparr>idP := 3\<rparr>], currentPlayerId = 2\<rparr>,
        history = [\<lparr>players = [initialPlayer1, initialPlayer2, initialPlayer2\<lparr>idP := 3\<rparr>],
                    currentPlayerId = 1\<rparr>]\<rparr> \<and>
   handleRemovePlayer 2
     \<lparr>gameState = \<lparr>players = [initialPlayer1, initialPlayer2, initialPlayer2\<lparr>idP := 3\<rparr>],
                    currentPlayerId = 1\<rparr>, history = []\<rparr> =
   Inr \<lparr>gameState = \<lparr>players = [initialPlayer1, initialPlayer2\<lparr>idP := 3\<rparr>], currentPlayerId = 1\<rparr>,
        history = [\<lparr>players = [initialPlayer1, initialPlayer2, initialPlayer2\<lparr>idP := 3\<rparr>],
                    currentPlayerId = 1\<rparr>]\<rparr>"
  using handleRemovePlayer_exact
    [of "\<lparr>gameState = \<lparr>players = [initialPlayer1, initialPlayer2, initialPlayer2\<lparr>idP := 3\<rparr>],
                    currentPlayerId = 3\<rparr>, history = []\<rparr>" 2 3]
    handleRemovePlayer_exact
    [of "\<lparr>gameState = \<lparr>players = [initialPlayer1, initialPlayer2, initialPlayer2\<lparr>idP := 3\<rparr>],
                    currentPlayerId = 1\<rparr>, history = []\<rparr>" 0 1]
    handleRemovePlayer_exact
    [of "\<lparr>gameState = \<lparr>players = [initialPlayer1, initialPlayer2, initialPlayer2\<lparr>idP := 3\<rparr>],
                    currentPlayerId = 1\<rparr>, history = []\<rparr>" 1 2]
  by (simp add: initialPlayer1_def initialPlayer2_def Let_def)

text \<open>
  C4 fails on the code when a pot overlaps another action. Two clicks on the black
  inside the delay: after the first timer player 1 has 7, and the second timer is
  pending with the initial state as its rendered state; after the second timer the
  history holds the initial state twice, and an undo gives the initial state, not the
  state with 7 from which the second pot was committed. A foul inside the delay of a
  pot: the undo after the commit gives the initial state, not the state after the foul.
\<close>

theorem overlapping_pots_undo:
  "session_run [Act (ApplyPot 7), Act (ApplyPot 7), Fire] initialSession =
     Inr \<lparr>current =
            \<lparr>gameState = \<lparr>players = [initialPlayer1\<lparr>score := 7, break := 7\<rparr>, initialPlayer2],
                           currentPlayerId = 1\<rparr>,
             history = [initialGameState]\<rparr>,
          pending = [(initialGameState, 7)]\<rparr> \<and>
   session_run [Act (ApplyPot 7), Act (ApplyPot 7), Fire, Fire] initialSession =
     Inr \<lparr>current =
            \<lparr>gameState = \<lparr>players = [initialPlayer1\<lparr>score := 14, break := 14\<rparr>, initialPlayer2],
                           currentPlayerId = 1\<rparr>,
             history = [initialGameState, initialGameState]\<rparr>,
          pending = []\<rparr> \<and>
   session_run [Act (ApplyPot 7), Act (ApplyPot 7), Fire, Fire, Act Undo] initialSession =
     Inr \<lparr>current = \<lparr>gameState = initialGameState, history = [initialGameState]\<rparr>,
          pending = []\<rparr> \<and>
   session_run [Act (ApplyPot 7), Act (ApplyFoul 4)] initialSession =
     Inr \<lparr>current =
            \<lparr>gameState = \<lparr>players = [initialPlayer1, initialPlayer2\<lparr>score := 4\<rparr>],
                           currentPlayerId = 1\<rparr>,
             history = [initialGameState]\<rparr>,
          pending = [(initialGameState, 7)]\<rparr> \<and>
   session_run [Act (ApplyPot 7), Act (ApplyFoul 4), Fire, Act Undo] initialSession =
     Inr \<lparr>current = \<lparr>gameState = initialGameState, history = [initialGameState]\<rparr>,
          pending = []\<rparr>"
  by code_simp

text \<open>
  C5. Every state reached from the initial state by a sequence of actions has between 2
  and 8 players, and the sequence does reach a state whenever each of its removals names a
  player present at that moment. With 8 players \<^verbatim>\<open>handleAddPlayer\<close>, and with 2 players
  \<^verbatim>\<open>handleRemovePlayer\<close>, leave the game state and the history as they are.
\<close>

theorem players_length_invariant:
  "(run ops initialApp = Inr app \<longrightarrow>
      2 \<le> length (players (gameState app)) \<and> length (players (gameState app)) \<le> 8) \<and>
   (removals_exist ops initialApp \<longrightarrow> (\<exists>a. run ops initialApp = Inr a)) \<and>
   (length (players (gameState app)) = 8 \<longrightarrow> handleAddPlayer app = app) \<and>
   (length (players (gameState app)) = 2 \<longrightarrow> handleRemovePlayer i app = Inr app)"
proof -
  have "2 \<le> length (players (gameState app)) \<and> length (players (gameState app)) \<le> 8"
    if "run ops initialApp = Inr app"
    using run_app_ok [OF app_ok_initialApp that] by (simp add: app_ok_def wf_state_def)
  moreover have "\<exists>a. run ops initialApp = Inr a" if "removals_exist ops initialApp"
    using app_ok_initialApp that by (rule run_total)
  moreover have "handleAddPlayer app = app" if "length (players (gameState app)) = 8"
    using that by (simp add: handleAddPlayer_def)
  moreover have "handleRemovePlayer i app = Inr app" if "length (players (gameState app)) = 2"
    using that by (simp add: handleRemovePlayer_def)
  ultimately show ?thesis by blast
qed

text \<open>
  Six additions give 8 players, and one more changes nothing; after an addition and a
  removal there are 2 players, and one more removal changes nothing.
\<close>

theorem players_length_invariant_witness:
  "(\<exists>a. run (replicate 6 AddPlayer) initialApp = Inr a \<and>
        length (players (gameState a)) = 8 \<and> handleAddPlayer a = a) \<and>
   (\<exists>a. run [AddPlayer, RemovePlayer 1] initialApp = Inr a \<and>
        length (players (gameState a)) = 2 \<and> handleRemovePlayer 2 a = Inr a)"
proof -
  have "removals_exist (replicate 6 AddPlayer) initialApp" by code_simp
  with players_length_invariant [of "replicate 6 AddPlayer"]
  obtain a where a: "run (replicate 6 AddPlayer) initialApp = Inr a" by blast
  have "ids_after (replicate 6 AddPlayer) = Some [1, 2, 3, 4, 5, 6, 7, 8]" by code_simp
  with a have "map idP (players (gameState a)) = [1, 2, 3, 4, 5, 6, 7, 8]"
    by (simp add: ids_after_def)
  then have "length (map idP (players (gameState a))) = 8" by simp
  then have l: "length (players (gameState a)) = 8" by (simp only: length_map)
  with players_length_invariant [of _ a] have "handleAddPlayer a = a" by blast
  with a l have 1: "\<exists>a. run (replicate 6 AddPlayer) initialApp = Inr a \<and>
        length (players (gameState a)) = 8 \<and> handleAddPlayer a = a" by blast
  have "removals_exist [AddPlayer, RemovePlayer 1] initialApp" by code_simp
  with players_length_invariant [of "[AddPlayer, RemovePlayer 1]"]
  obtain b where b: "run [AddPlayer, RemovePlayer 1] initialApp = Inr b" by blast
  have "ids_after [AddPlayer, RemovePlayer 1] = Some [2, 3]" by code_simp
  with b have "map idP (players (gameState b)) = [2, 3]"
    by (simp add: ids_after_def)
  then have "length (map idP (players (gameState b))) = 2" by simp
  then have l: "length (players (gameState b)) = 2" by (simp only: length_map)
  with players_length_invariant [of _ b 2] have "handleRemovePlayer 2 b = Inr b" by blast
  with b l have 2: "\<exists>a. run [AddPlayer, RemovePlayer 1] initialApp = Inr a \<and>
        length (players (gameState a)) = 2 \<and> handleRemovePlayer 2 a = Inr a" by blast
  from 1 2 show ?thesis ..
qed

text \<open>
  C6. \<^verbatim>\<open>handleNewGame\<close> keeps the ids and the names of the players in their order (so
  their number as well), sets every score and break to 0 and every rank to null, makes
  the first player the current one, and empties the history, so that a following
  \<^verbatim>\<open>handleUndo\<close> changes nothing.
\<close>

theorem handleNewGame_resets:
  "let ps = players (gameState app); app' = handleNewGame app; ps' = players (gameState app') in
     map idP ps' = map idP ps \<and> map name ps' = map name ps \<and>
     (\<forall>p\<in>set ps'. score p = 0 \<and> break p = 0 \<and> rank p = None) \<and>
     (ps \<noteq> [] \<longrightarrow> currentPlayerId (gameState app') = idP (hd ps')) \<and>
     history app' = [] \<and>
     handleUndo app' = app'"
  by (cases "players (gameState app)") (auto simp: Let_def handleNewGame_def handleUndo_def)

text \<open>A game in progress, with a rank and a history, goes back to the initial state.\<close>

theorem handleNewGame_resets_witness:
  "handleNewGame
     \<lparr>gameState = \<lparr>players = [initialPlayer1\<lparr>score := 4\<rparr>,
                                initialPlayer2\<lparr>score := 107, break := 107, rank := Some 1\<rparr>],
                    currentPlayerId = 2\<rparr>,
      history = [initialGameState]\<rparr> = initialApp \<and>
   handleUndo initialApp = initialApp"
proof -
  define a where "a = \<lparr>gameState = \<lparr>players = [initialPlayer1\<lparr>score := 4\<rparr>,
                                initialPlayer2\<lparr>score := 107, break := 107, rank := Some 1\<rparr>],
                    currentPlayerId = 2\<rparr>,
      history = [initialGameState]\<rparr>"
  have e: "handleNewGame a = initialApp"
    by (simp add: a_def handleNewGame_def initialApp_def initialGameState_def
        initialPlayer1_def initialPlayer2_def)
  from handleNewGame_resets [of a] have "handleUndo (handleNewGame a) = handleNewGame a"
    by (simp add: Let_def)
  with e show ?thesis unfolding a_def by simp
qed

text \<open>
  C7 as stated fails twice. With ranks 1 and 2 assigned, removing player 1 leaves the
  ranks \<open>{2}\<close>; and an undo right after the century clears the rank it assigned.
\<close>

theorem ranks_not_contiguous_counterexample:
  "ranks_after (replicate 14 (ApplyPot 7) @ [ApplyPot 2, SelectPlayer 2] @
                replicate 14 (ApplyPot 7) @ [ApplyPot 2, AddPlayer]) =
     Some [Some 1, Some 2, None] \<and>
   ranks_after (replicate 14 (ApplyPot 7) @ [ApplyPot 2, SelectPlayer 2] @
                replicate 14 (ApplyPot 7) @ [ApplyPot 2, AddPlayer, RemovePlayer 1]) =
     Some [Some 2, None] \<and>
   ranks_after (replicate 14 (ApplyPot 7) @ [ApplyPot 2]) = Some [Some 1, None] \<and>
   ranks_after (replicate 14 (ApplyPot 7) @ [ApplyPot 2, Undo]) = Some [None, None]"
  by code_simp

text \<open>
  C7, amended. In every state reached from the initial state the assigned ranks are
  positive and pairwise distinct. They are exactly 1, ..., k when every removal of the
  sequence was rejected, or took out a player without a rank, or took out the holder of
  the highest rank assigned at that moment: only the removal of the holder of a lower
  rank leaves a gap. A rank that \<^verbatim>\<open>handlePot\<close> assigns to a player without one is larger
  than every rank assigned at that moment. A rank, once assigned, is kept by every action
  other than a new game and an undo for as long as the player is there.
\<close>

theorem ranks_invariant:
  "(run ops initialApp = Inr app \<longrightarrow>
      distinct (existingRanks (gameState app)) \<and>
      (\<forall>r\<in>set (existingRanks (gameState app)). 1 \<le> r)) \<and>
   (run ops initialApp = Inr app \<and> removals_keep_ranks ops initialApp \<longrightarrow>
      set (existingRanks (gameState app)) = {1 .. int (length (existingRanks (gameState app)))}) \<and>
   (run ops initialApp = Inr app \<and>
    p \<in> set (players (gameState app)) \<and> rank p = None \<and>
    q \<in> set (players (gameState (handlePot n app))) \<and> idP q = idP p \<and> rank q = Some m \<longrightarrow>
      (\<forall>r\<in>set (existingRanks (gameState app)). r < m)) \<and>
   (run ops initialApp = Inr app \<and> x \<noteq> NewGame \<and> x \<noteq> Undo \<and> step x app = Inr app' \<and>
    p \<in> set (players (gameState app)) \<and> rank p = Some k \<and>
    q' \<in> set (players (gameState app')) \<and> idP q' = idP p \<longrightarrow>
      rank q' = Some k)"
proof -
  have ok: "app_ok app" if "run ops initialApp = Inr app"
    using app_ok_initialApp that by (rule run_app_ok)
  have 1: "distinct (existingRanks (gameState app)) \<and>
      (\<forall>r\<in>set (existingRanks (gameState app)). 1 \<le> r)" if "run ops initialApp = Inr app"
    using ok [OF that] by (simp add: app_ok_def wf_state_def)
  have 2: "set (existingRanks (gameState app)) = {1 .. int (length (existingRanks (gameState app)))}"
    if "run ops initialApp = Inr app" and "removals_keep_ranks ops initialApp"
    using run_contiguous [OF app_ok_initialApp app_contiguous_initialApp that(2,1)]
    by (simp add: app_contiguous_def contiguous_def)
  have 3: "\<forall>r\<in>set (existingRanks (gameState app)). r < m"
    if "run ops initialApp = Inr app" and "p \<in> set (players (gameState app))"
      and "rank p = None" and "q \<in> set (players (gameState (handlePot n app)))"
      and "idP q = idP p" and "rank q = Some m"
    using ok [OF that(1)] that(2-6) by (rule pot_rank_greater)
  have 4: "rank q' = Some k"
    if "run ops initialApp = Inr app" and "x \<noteq> NewGame" and "x \<noteq> Undo"
      and "step x app = Inr app'" and "p \<in> set (players (gameState app))"
      and "rank p = Some k" and "q' \<in> set (players (gameState app'))" and "idP q' = idP p"
    using ok [OF that(1)] that(2-8) by (rule step_rank_kept)
  from 1 2 3 4 show ?thesis by blast
qed

text \<open>
  After the first century the ranks are \<open>[1]\<close>. With ranks 1 and 2 assigned, removing
  the holder of rank 2 leaves the ranks \<open>{1}\<close>, and removing a third player without a
  rank leaves \<open>{1, 2}\<close>. Selecting player 2 keeps the rank of player 1; the century of
  player 2 gets rank 2, above the rank assigned before.
\<close>

theorem ranks_invariant_witness:
  "existingRanks (gameState after_first_century) = [1] \<and>
   distinct (existingRanks (gameState after_first_century)) \<and>
   set (existingRanks (gameState after_first_century)) =
     {1 .. int (length (existingRanks (gameState after_first_century)))} \<and>
   (\<exists>a. run (replicate 14 (ApplyPot 7) @ [ApplyPot 2, SelectPlayer 2] @
             replicate 14 (ApplyPot 7) @ [ApplyPot 2, AddPlayer, RemovePlayer 2]) initialApp = Inr a \<and>
        map rank (players (gameState a)) = [Some 1, None] \<and>
        set (existingRanks (gameState a)) = {1 .. int (length (existingRanks (gameState a)))}) \<and>
   (\<exists>a. run (replicate 14 (ApplyPot 7) @ [ApplyPot 2, SelectPlayer 2] @
             replicate 14 (ApplyPot 7) @ [ApplyPot 2, AddPlayer, RemovePlayer 3]) initialApp = Inr a \<and>
        map rank (players (gameState a)) = [Some 1, Some 2] \<and>
        set (existingRanks (gameState a)) = {1 .. int (length (existingRanks (gameState a)))}) \<and>
   rank (players (gameState (handlePlayerSelect 2 after_first_century)) ! 0) = Some 1 \<and>
   rank (players (gameState (handlePot 2 before_second_century)) ! 1) = Some 2 \<and>
   Max (set (existingRanks (gameState before_second_century))) < 2"
proof -
  let ?ops1 = "replicate 14 (ApplyPot 7) @ [ApplyPot 2]"
  let ?ops2 = "replicate 14 (ApplyPot 7) @ [ApplyPot 2, SelectPlayer 2] @ replicate 14 (ApplyPot 7)"
  let ?ops3 = "replicate 14 (ApplyPot 7) @ [ApplyPot 2, SelectPlayer 2] @
             replicate 14 (ApplyPot 7) @ [ApplyPot 2, AddPlayer, RemovePlayer 2]"
  let ?ops4 = "replicate 14 (ApplyPot 7) @ [ApplyPot 2, SelectPlayer 2] @
             replicate 14 (ApplyPot 7) @ [ApplyPot 2, AddPlayer, RemovePlayer 3]"
  have nr: "removals_keep_ranks ?ops1 initialApp" by code_simp
  have nr3: "removals_keep_ranks ?ops3 initialApp" by code_simp
  have nr4: "removals_keep_ranks ?ops4 initialApp" by code_simp
  have "ranks_after ?ops3 = Some [Some 1, None]" by code_simp
  then obtain a3 where a3: "run ?ops3 initialApp = Inr a3"
    and r3: "map rank (players (gameState a3)) = [Some 1, None]"
    by (auto simp: ranks_after_def split: sum.splits)
  from ranks_invariant [of ?ops3 a3] a3 nr3
  have "set (existingRanks (gameState a3)) = {1 .. int (length (existingRanks (gameState a3)))}"
    by blast
  with a3 r3 have g3: "\<exists>a. run ?ops3 initialApp = Inr a \<and>
        map rank (players (gameState a)) = [Some 1, None] \<and>
        set (existingRanks (gameState a)) = {1 .. int (length (existingRanks (gameState a)))}"
    by (intro exI [of _ a3] conjI)
  have "ranks_after ?ops4 = Some [Some 1, Some 2]" by code_simp
  then obtain a4 where a4: "run ?ops4 initialApp = Inr a4"
    and r4: "map rank (players (gameState a4)) = [Some 1, Some 2]"
    by (auto simp: ranks_after_def split: sum.splits)
  from ranks_invariant [of ?ops4 a4] a4 nr4
  have "set (existingRanks (gameState a4)) = {1 .. int (length (existingRanks (gameState a4)))}"
    by blast
  with a4 r4 have g4: "\<exists>a. run ?ops4 initialApp = Inr a \<and>
        map rank (players (gameState a)) = [Some 1, Some 2] \<and>
        set (existingRanks (gameState a)) = {1 .. int (length (existingRanks (gameState a)))}"
    by (intro exI [of _ a4] conjI)
  have e1: "existingRanks (gameState after_first_century) = [1]" by code_simp
  from ranks_invariant [of ?ops1 after_first_century] run_after_first_century nr
  have a: "distinct (existingRanks (gameState after_first_century))"
    and b: "set (existingRanks (gameState after_first_century)) =
     {1 .. int (length (existingRanks (gameState after_first_century)))}"
    by blast+
  have p1: "players (gameState after_first_century) ! 0 \<in> set (players (gameState after_first_century))"
    and r1: "rank (players (gameState after_first_century) ! 0) = Some 1"
    and q1: "players (gameState (handlePlayerSelect 2 after_first_century)) ! 0
        \<in> set (players (gameState (handlePlayerSelect 2 after_first_century)))"
    and i1: "idP (players (gameState (handlePlayerSelect 2 after_first_century)) ! 0) =
        idP (players (gameState after_first_century) ! 0)"
    by code_simp+
  have s1: "step (SelectPlayer 2) after_first_century =
      Inr (handlePlayerSelect 2 after_first_century)" by simp
  from ranks_invariant [of ?ops1 after_first_century
      "players (gameState after_first_century) ! 0" _ _ _ "SelectPlayer 2"
      "handlePlayerSelect 2 after_first_century" 1
      "players (gameState (handlePlayerSelect 2 after_first_century)) ! 0"]
    run_after_first_century s1 p1 r1 q1 i1
  have c: "rank (players (gameState (handlePlayerSelect 2 after_first_century)) ! 0) = Some 1"
    by blast
  have p2: "players (gameState before_second_century) ! 1 \<in> set (players (gameState before_second_century))"
    and r2: "rank (players (gameState before_second_century) ! 1) = None"
    and q2: "players (gameState (handlePot 2 before_second_century)) ! 1
        \<in> set (players (gameState (handlePot 2 before_second_century)))"
    and i2: "idP (players (gameState (handlePot 2 before_second_century)) ! 1) =
        idP (players (gameState before_second_century) ! 1)"
    and d: "rank (players (gameState (handlePot 2 before_second_century)) ! 1) = Some 2"
    and e2: "existingRanks (gameState before_second_century) = [1]"
    by code_simp+
  from ranks_invariant [of ?ops2 before_second_century
      "players (gameState before_second_century) ! 1"
      "players (gameState (handlePot 2 before_second_century)) ! 1" 2 2]
    run_before_second_century p2 r2 q2 i2 d
  have "\<forall>r\<in>set (existingRanks (gameState before_second_century)). r < 2"
    by blast
  with e2 have f: "Max (set (existingRanks (gameState before_second_century))) < 2" by simp
  from e1 a b g3 g4 c d f show ?thesis by (intro conjI)
qed




text \<open>
  C9 as stated fails: player 3 is added and removed, and the next player added has the
  id 3 again.
\<close>

theorem removed_id_reused_counterexample:
  "ids_after [AddPlayer] = Some [1, 2, 3] \<and>
   ids_after [AddPlayer, RemovePlayer 3] = Some [1, 2] \<and>
   ids_after [AddPlayer, RemovePlayer 3, AddPlayer] = Some [1, 2, 3]"
  by code_simp

text \<open>
  C9, amended. In every state reached from the initial state the ids are pairwise
  distinct; and in any state with fewer than 8 players \<^verbatim>\<open>handleAddPlayer\<close> appends exactly
  one player, with the largest id present plus 1 (or 1 when there is no player), the
  default name, zero score and break and no rank, and pushes the state before on the
  history. That id is larger than every id present: it never equals a present one, nor
  the id of a removed player as long as a player with an id at least as large is present.
\<close>

theorem ids_distinct_and_fresh:
  "(run ops initialApp = Inr app \<longrightarrow> distinct (map idP (players (gameState app)))) \<and>
   (length (players (gameState app)) < 8 \<longrightarrow>
      (let ids = map idP (players (gameState app));
           newId = (if ids = [] then 1 else Max (set ids) + 1)
       in handleAddPlayer app =
            \<lparr>gameState = (gameState app)\<lparr>players := players (gameState app) @
                 [\<lparr>idP = newId, name = player_prefix @ number_toString newId,
                   score = 0, break = 0, rank = None\<rparr>]\<rparr>,
             history = history app @ [gameState app]\<rparr> \<and>
          (\<forall>q\<in>set (players (gameState app)). idP q < newId)))"
proof -
  have "distinct (map idP (players (gameState app)))" if "run ops initialApp = Inr app"
    using run_app_ok [OF app_ok_initialApp that] by (simp add: app_ok_def wf_state_def)
  moreover have "let ids = map idP (players (gameState app));
           newId = (if ids = [] then 1 else Max (set ids) + 1)
       in handleAddPlayer app =
            \<lparr>gameState = (gameState app)\<lparr>players := players (gameState app) @
                 [\<lparr>idP = newId, name = player_prefix @ number_toString newId,
                   score = 0, break = 0, rank = None\<rparr>]\<rparr>,
             history = history app @ [gameState app]\<rparr> \<and>
          (\<forall>q\<in>set (players (gameState app)). idP q < newId)"
    if "length (players (gameState app)) < 8"
    using that addUpdate_exact [of "gameState app"] addUpdate_newId_greater [of "gameState app"]
    by (simp add: handleAddPlayer_def saveToHistory_def Let_def)
  ultimately show ?thesis by blast
qed

text \<open>With player 2 removed and players 1 and 3 present, the next id is 4.\<close>

theorem ids_distinct_and_fresh_witness:
  "\<exists>a. run [AddPlayer, RemovePlayer 2] initialApp = Inr a \<and>
       map idP (players (gameState a)) = [1, 3] \<and>
       distinct (map idP (players (gameState a))) \<and>
       map idP (players (gameState (handleAddPlayer a))) = [1, 3, 4]"
proof -
  have "ids_after [AddPlayer, RemovePlayer 2] = Some [1, 3]" by code_simp
  then obtain a where a: "run [AddPlayer, RemovePlayer 2] initialApp = Inr a"
    and ids: "map idP (players (gameState a)) = [1, 3]"
    by (auto simp: ids_after_def split: sum.splits)
  from ids have "length (map idP (players (gameState a))) = 2" by simp
  then have l: "length (players (gameState a)) < 8" by (simp only: length_map)
  from ids_distinct_and_fresh [of "[AddPlayer, RemovePlayer 2]" a] a l
  have d: "distinct (map idP (players (gameState a)))"
    and e: "let ids = map idP (players (gameState a));
           newId = (if ids = [] then 1 else Max (set ids) + 1)
       in handleAddPlayer a =
            \<lparr>gameState = (gameState a)\<lparr>players := players (gameState a) @
                 [\<lparr>idP = newId, name = player_prefix @ number_toString newId,
                   score = 0, break = 0, rank = None\<rparr>]\<rparr>,
             history = history a @ [gameState a]\<rparr> \<and>
          (\<forall>q\<in>set (players (gameState a)). idP q < newId)"
    by blast+
  from e ids have "map idP (players (gameState (handleAddPlayer a))) = [1, 3, 4]"
    by (simp add: Let_def)
  with a ids d show ?thesis by (intro exI [of _ a] conjI)
qed

text \<open>
  C10. \<^verbatim>\<open>handleNameUpdate\<close> trims the text. When nothing is left, the state is unchanged
  (the player keeps the name). Otherwise, with pairwise distinct ids and the player at
  index \<open>k\<close> having the id, that player's name becomes the trimmed text; the player's
  other fields, the other players and \<^verbatim>\<open>currentPlayerId\<close> stay, and the state before is
  pushed on the history.
\<close>

theorem handleNameUpdate_trim:
  "let ps = players (gameState app) in
   (trim newName = [] \<longrightarrow> handleNameUpdate i newName app = app) \<and>
   (trim newName \<noteq> [] \<and> distinct (map idP ps) \<and> k < length ps \<and> idP (ps ! k) = i \<longrightarrow>
      handleNameUpdate i newName app =
        \<lparr>gameState = (gameState app)\<lparr>players := ps[k := (ps ! k)\<lparr>name := trim newName\<rparr>]\<rparr>,
         history = history app @ [gameState app]\<rparr>)"
  using map_key_update [of idP "players (gameState app)" k "\<lambda>p. p\<lparr>name := trim newName\<rparr>"]
  by (auto simp: Let_def handleNameUpdate_def handleNameChange_def saveToHistory_def)

text \<open>A blank text changes nothing; \<^verbatim>\<open>" Al "\<close> renames player 1 to \<^verbatim>\<open>"Al"\<close>.\<close>

theorem handleNameUpdate_trim_witness:
  "handleNameUpdate 1 [0x20, 0x9] initialApp = initialApp \<and>
   handleNameUpdate 1 [0x20, 0x41, 0x6C, 0x20] initialApp =
     \<lparr>gameState = \<lparr>players = [initialPlayer1\<lparr>name := [0x41, 0x6C]\<rparr>, initialPlayer2],
                    currentPlayerId = 1\<rparr>,
      history = [initialGameState]\<rparr>"
proof -
  have t1: "trim [0x20, 0x9] = []" by (simp add: trim_def is_white_space_def)
  have t2: "trim [0x20, 0x41, 0x6C, 0x20] = [0x41, 0x6C]"
    by (simp add: trim_def is_white_space_def)
  from handleNameUpdate_trim [where newName = "[0x20, 0x9]" and i = 1 and app = initialApp] t1
  have 1: "handleNameUpdate 1 [0x20, 0x9] initialApp = initialApp" by (simp add: Let_def)
  from handleNameUpdate_trim [where newName = "[0x20, 0x41, 0x6C, 0x20]" and i = 1 and app = initialApp and k = 0] t2
  have 2: "handleNameUpdate 1 [0x20, 0x41, 0x6C, 0x20] initialApp =
     \<lparr>gameState = \<lparr>players = [initialPlayer1\<lparr>name := [0x41, 0x6C]\<rparr>, initialPlayer2],
                    currentPlayerId = 1\<rparr>,
      history = [initialGameState]\<rparr>"
    by (simp add: Let_def initialApp_def initialGameState_def initialPlayer1_def
        initialPlayer2_def)
  from 1 2 show ?thesis ..
qed

end
